theory Spec2Isabelle
  imports Main
begin

section \<open>Characters and strings as the scraper's text functions see them\<close>

text \<open>
  Rendered text is modelled as a \<^typ>\<open>string\<close> of ASCII characters. The character
  classes below are the ASCII part of the ECMAScript classes used by the regular
  expressions of \<^verbatim>\<open>scrape.ts\<close>: \<^verbatim>\<open>\d\<close>, \<^verbatim>\<open>\s\<close>, \<^verbatim>\<open>\w\<close> and \<^verbatim>\<open>.\<close>.
\<close>

definition digits :: string where
  "digits = ''0123456789''"

definition upper :: string where
  "upper = ''ABCDEFGHIJKLMNOPQRSTUVWXYZ''"

definition lower :: string where
  "lower = ''abcdefghijklmnopqrstuvwxyz''"

definition isDigit :: "char \<Rightarrow> bool" where
  "isDigit c = (c \<in> set digits)"

definition isUpper :: "char \<Rightarrow> bool" where
  "isUpper c = (c \<in> set upper)"

definition isLowerC :: "char \<Rightarrow> bool" where
  "isLowerC c = (c \<in> set lower)"

definition isAlpha :: "char \<Rightarrow> bool" where
  "isAlpha c = (isUpper c \<or> isLowerC c)"

definition isWordChar :: "char \<Rightarrow> bool" where
  "isWordChar c = (isAlpha c \<or> isDigit c \<or> c = CHR ''_'')"

text \<open>Tab, line feed, vertical tab, form feed, carriage return and space.\<close>

definition isSpace :: "char \<Rightarrow> bool" where
  "isSpace c = (c \<in> set [CHR 0x09, CHR 0x0A, CHR 0x0B, CHR 0x0C, CHR 0x0D, CHR '' ''])"

definition isLineTerminator :: "char \<Rightarrow> bool" where
  "isLineTerminator c = (c = CHR 0x0A \<or> c = CHR 0x0D)"

definition toLowerChar :: "char \<Rightarrow> char" where
  "toLowerChar c = (case map_of (zip upper lower) c of Some l \<Rightarrow> l | None \<Rightarrow> c)"

definition toLowerCase :: "string \<Rightarrow> string" where
  "toLowerCase s = map toLowerChar s"

definition trim :: "string \<Rightarrow> string" where
  "trim s = rev (dropWhile isSpace (rev (dropWhile isSpace s)))"

fun includesStr :: "string \<Rightarrow> string \<Rightarrow> bool" where
  "includesStr [] t = (t = [])"
| "includesStr (c # cs) t = (take (length t) (c # cs) = t \<or> includesStr cs t)"

fun join :: "string \<Rightarrow> string list \<Rightarrow> string" where
  "join sep [] = []"
| "join sep [x] = x"
| "join sep (x # y # ys) = x @ sep @ join sep (y # ys)"

section \<open>A backtracking matcher for the regular expressions of the source\<close>

datatype cls = Digit | NonDigit | Space | Word | Dot | Alpha | Chars string | Union cls cls

fun inCls :: "cls \<Rightarrow> char \<Rightarrow> bool" where
  "inCls Digit c = isDigit c"
| "inCls NonDigit c = (\<not> isDigit c)"
| "inCls Space c = isSpace c"
| "inCls Word c = isWordChar c"
| "inCls Dot c = (\<not> isLineTerminator c)"
| "inCls Alpha c = isAlpha c"
| "inCls (Chars s) c = (c \<in> set s)"
| "inCls (Union a b) c = (inCls a c \<or> inCls b c)"

datatype rx =
    Lit string
  | LitI string
  | Seq rx rx
  | Alt rx rx
  | Opt rx
  | Rep cls nat "nat option"
  | RepLazy cls
  | Bol
  | Eol
  | Wb

text \<open>
  A position is the character before it (\<open>None\<close> at the start of the input) and the
  text after it. A matcher returns
  every position at which a match of the expression started at the given position can
  end, in the order in which a backtracking matcher tries them: the head of the list is
  the match that the ECMAScript matcher reports.
\<close>

type_synonym pos = "char option \<times> string"

fun lit :: "(char \<Rightarrow> char) \<Rightarrow> string \<Rightarrow> pos \<Rightarrow> pos list" where
  "lit f [] p = [p]"
| "lit f (a # as) (pre, []) = []"
| "lit f (a # as) (pre, c # cs) = (if f c = f a then lit f as (Some c, cs) else [])"

fun rep :: "cls \<Rightarrow> nat \<Rightarrow> nat option \<Rightarrow> pos \<Rightarrow> pos list" where
  "rep k lo hi (pre, []) = (if lo = 0 then [(pre, [])] else [])"
| "rep k lo hi (pre, c # cs) =
     (if inCls k c \<and> hi \<noteq> Some 0 then rep k (lo - 1) (map_option (\<lambda>h. h - 1) hi) (Some c, cs) else [])
     @ (if lo = 0 then [(pre, c # cs)] else [])"

fun repLazy :: "cls \<Rightarrow> pos \<Rightarrow> pos list" where
  "repLazy k (pre, []) = [(pre, [])]"
| "repLazy k (pre, c # cs) = (pre, c # cs) # (if inCls k c then repLazy k (Some c, cs) else [])"

definition wordBefore :: "pos \<Rightarrow> bool" where
  "wordBefore p = (case fst p of None \<Rightarrow> False | Some c \<Rightarrow> isWordChar c)"

definition wordAfter :: "pos \<Rightarrow> bool" where
  "wordAfter p = (case snd p of [] \<Rightarrow> False | c # _ \<Rightarrow> isWordChar c)"

fun rxm :: "rx \<Rightarrow> pos \<Rightarrow> pos list" where
  "rxm (Lit s) p = lit id s p"
| "rxm (LitI s) p = lit toLowerChar s p"
| "rxm (Seq a b) p = concat (map (rxm b) (rxm a p))"
| "rxm (Alt a b) p = rxm a p @ rxm b p"
| "rxm (Opt a) p = rxm a p @ [p]"
| "rxm (Rep k lo hi) p = rep k lo hi p"
| "rxm (RepLazy k) p = repLazy k p"
| "rxm Bol p = (if fst p = None then [p] else [])"
| "rxm Eol p = (if snd p = [] then [p] else [])"
| "rxm Wb p = (if wordBefore p \<noteq> wordAfter p then [p] else [])"

text \<open>Sequence of a list of expressions.\<close>

fun seqs :: "rx list \<Rightarrow> rx" where
  "seqs [] = Lit []"
| "seqs [r] = r"
| "seqs (r # rs) = Seq r (seqs rs)"

text \<open>
  \<open>segs rs p\<close>: the expressions \<open>rs\<close> matched one after the other from \<open>p\<close>; each
  result lists the positions between them, which gives the text of a capture group.
\<close>

fun segs :: "rx list \<Rightarrow> pos \<Rightarrow> pos list list" where
  "segs [] p = [[]]"
| "segs (r # rs) p = concat (map (\<lambda>q. map ((#) q) (segs rs q)) (rxm r p))"

definition between :: "pos \<Rightarrow> pos \<Rightarrow> string" where
  "between p q = take (length (snd p) - length (snd q)) (snd p)"

text \<open>Leftmost match: \<^verbatim>\<open>RegExp.prototype.test\<close> and \<^verbatim>\<open>String.prototype.match\<close> without \<^verbatim>\<open>g\<close>.\<close>

fun scan :: "rx \<Rightarrow> pos \<Rightarrow> (pos \<times> pos) option" where
  "scan r (pre, []) = (case rxm r (pre, []) of e # _ \<Rightarrow> Some ((pre, []), e) | [] \<Rightarrow> None)"
| "scan r (pre, c # cs) =
     (case rxm r (pre, c # cs) of e # _ \<Rightarrow> Some ((pre, c # cs), e) | [] \<Rightarrow> scan r (Some c, cs))"

definition test :: "rx \<Rightarrow> string \<Rightarrow> bool" where
  "test r s = (scan r (None, s) \<noteq> None)"

fun scanSegs :: "rx list \<Rightarrow> pos \<Rightarrow> (pos list) option" where
  "scanSegs rs (pre, []) = (case segs rs (pre, []) of e # _ \<Rightarrow> Some ((pre, []) # e) | [] \<Rightarrow> None)"
| "scanSegs rs (pre, c # cs) =
     (case segs rs (pre, c # cs) of e # _ \<Rightarrow> Some ((pre, c # cs) # e) | [] \<Rightarrow> scanSegs rs (Some c, cs))"

text \<open>
  \<^verbatim>\<open>s.replace(r, w)\<close> for a global expression \<open>r\<close> and a replacement \<open>w\<close> without
  \<^verbatim>\<open>$\<close> patterns: every match, left to right, not overlapping; after an empty match the
  next character is copied.
\<close>

function replG :: "rx \<Rightarrow> string \<Rightarrow> pos \<Rightarrow> string" where
  "replG r w (pre, post) =
     (case rxm r (pre, post) of
        e # _ \<Rightarrow>
          if length (snd e) < length post then w @ replG r w e
          else (case post of [] \<Rightarrow> w | c # cs \<Rightarrow> w @ c # replG r w (Some c, cs))
      | [] \<Rightarrow> (case post of [] \<Rightarrow> [] | c # cs \<Rightarrow> c # replG r w (Some c, cs)))"
  by pat_completeness auto
termination
  by (relation "measure (\<lambda>(r, w, p). length (snd p))") auto

declare replG.simps [simp del]

definition replaceAll :: "rx \<Rightarrow> string \<Rightarrow> string \<Rightarrow> string" where
  "replaceAll r w s = replG r w (None, s)"

text \<open>\<^verbatim>\<open>s.replace(r, w)\<close> for an expression without the \<^verbatim>\<open>g\<close> flag: the leftmost match only.\<close>

definition replaceFirst :: "rx \<Rightarrow> string \<Rightarrow> string \<Rightarrow> string" where
  "replaceFirst r w s =
     (case scan r (None, s) of
        None \<Rightarrow> s
      | Some (b, e) \<Rightarrow> take (length s - length (snd b)) s @ w @ snd e)"

section \<open>Text cleanup utilities\<close>

text \<open>The regular expressions of \<^verbatim>\<open>normalizeWhitespace\<close> and \<^verbatim>\<open>cleanLines\<close>, in source order.\<close>

definition rx_crlftab :: rx where \<comment> \<open>\<^verbatim>\<open>/[\r\n\t]+/g\<close>\<close>
  "rx_crlftab = Rep (Chars [CHR 0x0D, CHR 0x0A, CHR 0x09]) 1 None"

definition rx_spaces2 :: rx where \<comment> \<open>\<^verbatim>\<open>/\s{2,}/g\<close>\<close>
  "rx_spaces2 = Rep Space 2 None"

definition rx_count4 :: rx where \<comment> \<open>\<^verbatim>\<open>/^\d{1,4}$/\<close>\<close>
  "rx_count4 = seqs [Bol, Rep Digit 1 (Some 4), Eol]"

definition rx_nRepl :: rx where \<comment> \<open>\<^verbatim>\<open>/^\d+\s+Repl/i\<close>\<close>
  "rx_nRepl = seqs [Bol, Rep Digit 1 None, Rep Space 1 None, LitI ''Repl'']"

definition rx_repliesSorted :: rx where \<comment> \<open>\<^verbatim>\<open>/Replies?\s+sorted\s+by/i\<close>\<close>
  "rx_repliesSorted =
     seqs [LitI ''Replie'', Opt (LitI ''s''), Rep Space 1 None, LitI ''sorted'', Rep Space 1 None,
           LitI ''by'']"

definition rx_order :: rx where \<comment> \<open>\<^verbatim>\<open>(most|newest|oldest)\<close>\<close>
  "rx_order = Alt (LitI ''most'') (Alt (LitI ''newest'') (LitI ''oldest''))"

definition rx_sortedBy :: rx where \<comment> \<open>\<^verbatim>\<open>/sorted\s+by\s+(most|newest|oldest)/i\<close>\<close>
  "rx_sortedBy = seqs [LitI ''sorted'', Rep Space 1 None, LitI ''by'', Rep Space 1 None, rx_order]"

definition rx_mostLiked :: rx where \<comment> \<open>\<^verbatim>\<open>/^(most|newest|oldest)\s+(liked|recent)/i\<close>\<close>
  "rx_mostLiked = seqs [Bol, rx_order, Rep Space 1 None, Alt (LitI ''liked'') (LitI ''recent'')]"

definition rx_like :: rx where \<comment> \<open>\<^verbatim>\<open>/\bLike\b(?:\s*\d+)?/gi\<close>\<close>
  "rx_like = seqs [Wb, LitI ''Like'', Wb, Opt (Seq (Rep Space 0 None) (Rep Digit 1 None))]"

definition rx_reply :: rx where \<comment> \<open>\<^verbatim>\<open>/\bReply\b/gi\<close>\<close>
  "rx_reply = seqs [Wb, LitI ''Reply'', Wb]"

definition rx_inlineCount :: rx where \<comment> \<open>\<^verbatim>\<open>/\b\d+\s+Repl(?:y|ies)?\b/gi\<close>\<close>
  "rx_inlineCount =
     seqs [Wb, Rep Digit 1 None, Rep Space 1 None, LitI ''Repl'',
           Opt (Alt (LitI ''y'') (LitI ''ies'')), Wb]"

definition rx_inlineSorted :: rx where \<comment> \<open>\<^verbatim>\<open>/\bReplies?\s+sorted\s+by\s+\w+/gi\<close>\<close>
  "rx_inlineSorted =
     seqs [Wb, LitI ''Replie'', Opt (LitI ''s''), Rep Space 1 None, LitI ''sorted'',
           Rep Space 1 None, LitI ''by'', Rep Space 1 None, Rep Word 1 None]"

definition rx_inlineSortedBy :: rx where
  \<comment> \<open>\<^verbatim>\<open>/\bsorted\s+by\s+(most|newest|oldest)\s+\w*/gi\<close>\<close>
  "rx_inlineSortedBy =
     seqs [Wb, LitI ''sorted'', Rep Space 1 None, LitI ''by'', Rep Space 1 None, rx_order,
           Rep Space 1 None, Rep Word 0 None]"

definition normalizeWhitespace :: "string \<Rightarrow> string" where
  "normalizeWhitespace s = trim (replaceAll rx_spaces2 '' '' (replaceAll rx_crlftab '' '' s))"

text \<open>\<^verbatim>\<open>raw.split(/\r?\n/)\<close>: a line ends at a line feed; a carriage return just before it
  belongs to the separator.\<close>

fun splitAcc :: "string \<Rightarrow> string \<Rightarrow> string list" where
  "splitAcc acc [] = [rev acc]"
| "splitAcc acc (c # cs) =
     (if c = CHR 0x0A then rev acc # splitAcc [] cs
      else if c = CHR 0x0D \<and> take 1 cs = [CHR 0x0A] then rev acc # splitAcc [] (drop 1 cs)
      else splitAcc (c # acc) cs)"

definition splitLines :: "string \<Rightarrow> string list" where
  "splitLines raw = splitAcc [] raw"

record ctx =
  c_title :: "string option"
  c_author :: "string option"
  c_time :: "string option"

definition forbidden :: "string list" where
  "forbidden = [''tag'', ''like'', ''reply'', ''copy link'', ''follow'', ''report'',
                ''marked as solution'', ''solved'']"

definition roleTokens :: "string list" where
  "roleTokens = [''contributor'', ''ambassador'', ''support team'']"

text \<open>\<^verbatim>\<open>ctx.f && line === ctx.f\<close>: the field is present, not empty, and equal to the line.\<close>

definition isCtx :: "string option \<Rightarrow> string \<Rightarrow> bool" where
  "isCtx f line = (case f of None \<Rightarrow> False | Some t \<Rightarrow> t \<noteq> [] \<and> line = t)"

text \<open>The \<^verbatim>\<open>continue\<close> conditions of the loop over the lines, in source order.\<close>

definition dropLine :: "ctx \<Rightarrow> string \<Rightarrow> bool" where
  "dropLine cx line =
     (isCtx (c_title cx) line \<or> isCtx (c_author cx) line \<or> isCtx (c_time cx) line
      \<or> toLowerCase line \<in> set forbidden
      \<or> test rx_count4 line
      \<or> list_ex (\<lambda>t. includesStr (toLowerCase line) t) roleTokens
      \<or> test rx_nRepl line
      \<or> test rx_repliesSorted line
      \<or> test rx_sortedBy line
      \<or> test rx_mostLiked line)"

definition cleanedLines :: "string \<Rightarrow> ctx \<Rightarrow> string list" where
  "cleanedLines raw cx =
     filter (\<lambda>line. \<not> dropLine cx line) (filter (\<lambda>l. l \<noteq> []) (map trim (splitLines raw)))"

definition inlineClean :: "string \<Rightarrow> string" where
  "inlineClean out0 =
     (let out1 = replaceAll rx_reply '' '' (replaceAll rx_like '' '' out0);
          out2 = replaceAll rx_inlineCount '' '' out1;
          out3 = replaceAll rx_inlineSorted '' '' out2;
          out4 = replaceAll rx_inlineSortedBy '' '' out3;
          out5 = replaceAll rx_spaces2 '' '' out4
      in normalizeWhitespace out5)"

definition cleanLines :: "string \<Rightarrow> ctx \<Rightarrow> string" where
  "cleanLines raw cx = inlineClean (join '' '' (cleanedLines raw cx))"

section \<open>Author inference\<close>

text \<open>\<^verbatim>\<open>/^([A-Za-z][A-Za-z0-9_\-]{2,})\b[\s,:-]+(.*)$/\<close>, cut at the borders of its two groups.\<close>

definition rx_authorSegs :: "rx list" where
  "rx_authorSegs =
     [Bol,
      Seq (Rep Alpha 1 (Some 1)) (Rep (Union Word (Chars ''-'')) 2 None),
      Seq Wb (Rep (Union Space (Chars '',:-'')) 1 None),
      Rep Dot 0 None,
      Eol]"

definition blacklist :: "string list" where
  "blacklist = [''Hi'', ''Has'', ''I'', ''We'', ''Thanks'', ''Hey'', ''Hello'']"

definition extractAuthorFromContent :: "string \<Rightarrow> string option \<times> string" where
  "extractAuthorFromContent content =
     (case scanSegs rx_authorSegs (None, content) of
        Some [s, p0, p1, p2, p3, p4] \<Rightarrow>
          (let candidate = between p0 p1; rest = between p2 p3
           in if candidate \<notin> set blacklist then (Some candidate, trim rest) else (None, content))
      | _ \<Rightarrow> (None, content))"

section \<open>Numbers read from text\<close>

text \<open>
  Counters are JavaScript numbers holding non-negative integers; they are modelled as
  \<^typ>\<open>int\<close>. \<open>parseInt\<close> is \<^verbatim>\<open>parseInt(s, 10)\<close>: leading white space, an optional sign,
  then the longest run of decimal digits; \<open>None\<close> stands for \<^verbatim>\<open>NaN\<close>.
\<close>

definition digitVal :: "char \<Rightarrow> int" where
  "digitVal c = (case map_of (zip digits [0, 1, 2, 3, 4, 5, 6, 7, 8, 9]) c of Some d \<Rightarrow> d | None \<Rightarrow> 0)"

definition digitsToInt :: "string \<Rightarrow> int" where
  "digitsToInt ds = foldl (\<lambda>n c. 10 * n + digitVal c) 0 ds"

definition parseDigits :: "string \<Rightarrow> int option" where
  "parseDigits s = (let ds = takeWhile isDigit s in if ds = [] then None else Some (digitsToInt ds))"

definition parseInt :: "string \<Rightarrow> int option" where
  "parseInt s =
     (case dropWhile isSpace s of
        [] \<Rightarrow> None
      | c # cs \<Rightarrow>
          if c = CHR ''-'' then map_option uminus (parseDigits cs)
          else if c = CHR ''+'' then parseDigits cs
          else parseDigits (c # cs))"

definition rx_nonDigit :: rx where \<comment> \<open>\<^verbatim>\<open>/\D/g\<close>\<close>
  "rx_nonDigit = Rep NonDigit 1 (Some 1)"

definition digitsOnly :: "string \<Rightarrow> string" where
  "digitsOnly s = replaceAll rx_nonDigit [] s"

section \<open>Data model\<close>

record reply =
  r_author :: string
  r_time :: string
  r_content :: string
  r_likes :: int

record discussionDetail =
  d_title :: string
  d_url :: string
  d_author :: string
  d_authorRole :: string
  d_time :: string
  d_content :: string
  d_views :: int
  d_likes :: int
  d_comments :: int
  d_replies :: "reply list"

record summary =
  s_title :: string
  s_url :: string
  s_author :: string
  s_time :: string
  s_views :: int
  s_likes :: int
  s_comments :: int

datatype error = GotoFailed | WaitTimeout | LocatorFailed | WheelFailed | EvaluateFailed

section \<open>What the page shows\<close>

text \<open>
  The rendering session is an external collaborator. A reply container as the callback of
  \<^verbatim>\<open>page.$$eval\<close> reads it: the text of each queried child, \<open>None\<close> where
  \<^verbatim>\<open>querySelector\<close> finds nothing.
\<close>

record replyEl =
  el_body :: "string option"
  el_innerText :: string
  el_author :: "string option"
  el_time :: "string option"
  el_role :: "string option"
  el_likeText :: "string option"

record replyRaw =
  rr_author :: string
  rr_role :: string
  rr_time :: string
  rr_content :: string
  rr_likes :: int

text \<open>
  The reads of \<^verbatim>\<open>scrapeDiscussionDetail\<close> after the page is expanded. A read that rejects
  is \<open>Inl\<close>; \<^verbatim>\<open>textContent()\<close> can resolve to \<^verbatim>\<open>null\<close>, which is \<open>Inr None\<close>.
\<close>

record snapshot =
  sn_title :: "error + string option"
  sn_mainAuthor :: "error + string option"
  sn_mainTime :: "error + string option"
  sn_mainRole :: "error + string option"
  sn_mainBody :: "error + string option"
  sn_replyEls :: "string \<Rightarrow> error + replyEl list"
  sn_replyLabel :: "error + string option"
  sn_bodyText :: "error + string option"
  sn_viewIcons :: "error + nat"

text \<open>
  The page primitives the extractor consumes, over an abstract page state \<open>'p\<close>. The
  delays of the source are part of the transition that precedes them. \<open>click\<close> is
  \<^verbatim>\<open>el.click({ timeout: 500 }).catch(() => {})\<close> and \<open>isVisible\<close> is
  \<^verbatim>\<open>el.isVisible().catch(() => false)\<close>: neither can fail.
\<close>

record 'p page_ops =
  goto :: "string \<Rightarrow> 'p \<Rightarrow> error option \<times> 'p"
  waitForSelector :: "string \<Rightarrow> 'p \<Rightarrow> error option \<times> 'p"
  locCount :: "string \<Rightarrow> 'p \<Rightarrow> error + nat"
  isVisible :: "string \<Rightarrow> nat \<Rightarrow> 'p \<Rightarrow> bool"
  click :: "string \<Rightarrow> nat \<Rightarrow> 'p \<Rightarrow> 'p"
  wheel :: "'p \<Rightarrow> error option \<times> 'p"
  scrollBulk :: "'p \<Rightarrow> error option \<times> 'p"
  observe :: "'p \<Rightarrow> snapshot"

section \<open>Content Revealer: \<^verbatim>\<open>expandAllContent\<close>\<close>

definition selectors :: "string list" where
  "selectors =
     [''button:has-text(Show More)'', ''button:has-text(Show more)'',
      ''a:has-text(Show More)'', ''a:has-text(Show more)'',
      ''button:has-text(Read More)'', ''button:has-text(Read more)'',
      ''a:has-text(Read More)'', ''a:has-text(Read more)'',
      ''button:has-text(Load more replies)'', ''a:has-text(Load more replies)'',
      ''[data-testid*=show-more]'', ''[data-testid*=load-more]'',
      ''[aria-expanded=false]:has-text(Show More)'',
      ''[aria-expanded=false]:has-text(Show more)'',
      ''[aria-expanded=false]:has-text(more)'']"

text \<open>Selectors are opaque keys of the page; the quotation marks inside them are left out.
  The body of the inner \<^verbatim>\<open>for\<close> loop: the state is the page and the number of
  activations of this round (\<^verbatim>\<open>clickedAny\<close> is that number being positive).\<close>

definition clickNth :: "'p page_ops \<Rightarrow> string \<Rightarrow> 'p \<times> nat \<Rightarrow> nat \<Rightarrow> 'p \<times> nat" where
  "clickNth ops sel st i =
     (if isVisible ops sel i (fst st) then (click ops sel i (fst st), Suc (snd st)) else st)"

definition clickAll :: "'p page_ops \<Rightarrow> string \<Rightarrow> 'p \<times> nat \<Rightarrow> error option \<times> 'p \<times> nat" where
  "clickAll ops sel st =
     (case locCount ops sel (fst st) of
        Inl e \<Rightarrow> (Some e, st)
      | Inr c \<Rightarrow> (None, foldl (clickNth ops sel) st [0..<c]))"

fun clickSelectors :: "'p page_ops \<Rightarrow> string list \<Rightarrow> 'p \<times> nat \<Rightarrow> error option \<times> 'p \<times> nat" where
  "clickSelectors ops [] st = (None, st)"
| "clickSelectors ops (sel # sels) st =
     (case clickAll ops sel st of
        (Some e, st') \<Rightarrow> (Some e, st')
      | (None, st') \<Rightarrow> clickSelectors ops sels st')"

definition oneRound :: "'p page_ops \<Rightarrow> 'p \<Rightarrow> (error + nat) \<times> 'p" where
  "oneRound ops p =
     (case clickSelectors ops selectors (p, 0) of
        (Some e, (p', n)) \<Rightarrow> (Inl e, p')
      | (None, (p', n)) \<Rightarrow>
          (case wheel ops p' of
             (Some e, p'') \<Rightarrow> (Inl e, p'')
           | (None, p'') \<Rightarrow> (Inr n, p'')))"

text \<open>\<open>expandLoop ops k acc p\<close>: \<open>k\<close> rounds are left of the budget; \<open>acc\<close> lists the
  number of activations of each round so far.\<close>

fun expandLoop :: "'p page_ops \<Rightarrow> nat \<Rightarrow> nat list \<Rightarrow> 'p \<Rightarrow> (error + nat list) \<times> 'p" where
  "expandLoop ops 0 acc p = (Inr acc, p)"
| "expandLoop ops (Suc k) acc p =
     (case oneRound ops p of
        (Inl e, p') \<Rightarrow> (Inl e, p')
      | (Inr n, p') \<Rightarrow>
          if n = 0 then (Inr (acc @ [n]), p') else expandLoop ops k (acc @ [n]) p')"

definition expandAllContent :: "'p page_ops \<Rightarrow> 'p \<Rightarrow> (error + nat list) \<times> 'p" where
  "expandAllContent ops p = expandLoop ops 50 [] p"

section \<open>Detail Extractor: \<^verbatim>\<open>scrapeDiscussionDetail\<close>\<close>

text \<open>\<^verbatim>\<open>x.catch(() => "")\<close> on a read.\<close>

definition caught :: "error + string option \<Rightarrow> string option" where
  "caught r = (case r of Inl e \<Rightarrow> Some [] | Inr v \<Rightarrow> v)"

text \<open>\<^verbatim>\<open>x?.trim() || ""\<close> and \<^verbatim>\<open>(x || "").trim()\<close> agree: the trimmed text, or the empty
  string when there is none.\<close>

definition trimOrEmpty :: "string option \<Rightarrow> string" where
  "trimOrEmpty x = (case x of None \<Rightarrow> [] | Some t \<Rightarrow> trim t)"

text \<open>The pre-filter of reply text inside the page callback.\<close>

definition rx_preCount :: rx where \<comment> \<open>\<^verbatim>\<open>/^\d+\s+Repl(?:y|ies)?\s*/i\<close>\<close>
  "rx_preCount =
     seqs [Bol, Rep Digit 1 None, Rep Space 1 None, LitI ''Repl'',
           Opt (Alt (LitI ''y'') (LitI ''ies'')), Rep Space 0 None]"

definition rx_preSorted :: rx where \<comment> \<open>\<^verbatim>\<open>/Replies?\s+sorted\s+by\s+\w+\s*/gi\<close>\<close>
  "rx_preSorted =
     seqs [LitI ''Replie'', Opt (LitI ''s''), Rep Space 1 None, LitI ''sorted'', Rep Space 1 None,
           LitI ''by'', Rep Space 1 None, Rep Word 1 None, Rep Space 0 None]"

definition rx_preSortedBy :: rx where
  \<comment> \<open>\<^verbatim>\<open>/sorted\s+by\s+(most|newest|oldest)\s+\w*\s*/gi\<close>\<close>
  "rx_preSortedBy =
     seqs [LitI ''sorted'', Rep Space 1 None, LitI ''by'', Rep Space 1 None, rx_order,
           Rep Space 1 None, Rep Word 0 None, Rep Space 0 None]"

definition preFilter :: "string \<Rightarrow> string" where
  "preFilter content =
     replaceAll rx_preSortedBy [] (replaceAll rx_preSorted [] (replaceFirst rx_preCount [] content))"

definition rawOfEl :: "replyEl \<Rightarrow> replyRaw" where
  "rawOfEl el =
     \<lparr> rr_author = trimOrEmpty (el_author el),
       rr_role = trimOrEmpty (el_role el),
       rr_time = trimOrEmpty (el_time el),
       rr_content = preFilter (case el_body el of Some b \<Rightarrow> trim b | None \<Rightarrow> trim (el_innerText el)),
       rr_likes = (case parseInt (digitsOnly (trimOrEmpty (el_likeText el))) of
                     None \<Rightarrow> 0 | Some n \<Rightarrow> n) \<rparr>"

definition replySelectors :: "string list" where
  "replySelectors =
     [''article'', ''li[data-testid^=message]'', ''[data-testid=message-view]'',
      ''.lia-message-view'', ''[class*=message]'']"

text \<open>The loop over \<open>replySelectors\<close>: a selector whose query rejects is skipped, the
  first one with a reply beyond the main post ends the loop.\<close>

fun pickReplies :: "snapshot \<Rightarrow> string list \<Rightarrow> replyRaw list \<Rightarrow> replyRaw list" where
  "pickReplies sn [] cur = cur"
| "pickReplies sn (sel # sels) cur =
     (case sn_replyEls sn sel of
        Inl e \<Rightarrow> pickReplies sn sels cur
      | Inr els \<Rightarrow>
          (let rs = map rawOfEl (drop 1 els)
           in if length rs > 0 then rs else pickReplies sn sels rs))"

text \<open>The declared reply count: the first run of digits of the label; when the label
  cannot be read, four patterns over the text of the whole page.\<close>

definition firstGroup :: "rx list \<Rightarrow> nat \<Rightarrow> string \<Rightarrow> string option" where
  "firstGroup rs i s =
     (case scanSegs rs (None, s) of
        None \<Rightarrow> None
      | Some ps \<Rightarrow> Some (between (ps ! i) (ps ! Suc i)))"

definition fallbackPatterns :: "(rx list \<times> nat) list" where
  "fallbackPatterns =
     [([Rep Digit 1 None, Seq (Rep Space 1 None) (LitI ''Repl'')], 0),
      ([Seq (LitI ''Repl'') (RepLazy Dot), Rep Digit 1 None], 1),
      ([Rep Digit 1 None, Seq (Rep Space 1 None) (LitI ''comment'')], 0),
      ([Seq (LitI ''comment'') (RepLazy Dot), Rep Digit 1 None], 1)]"

fun firstPattern :: "(rx list \<times> nat) list \<Rightarrow> string \<Rightarrow> int option" where
  "firstPattern [] s = None"
| "firstPattern ((rs, i) # ps) s =
     (case firstGroup rs i s of
        Some g \<Rightarrow> parseInt g
      | None \<Rightarrow> firstPattern ps s)"

definition expectedReplies :: "snapshot \<Rightarrow> int option" where
  "expectedReplies sn =
     (case sn_replyLabel sn of
        Inr None \<Rightarrow> None
      | Inr (Some t) \<Rightarrow>
          (case firstGroup [Rep Digit 1 None] 0 t of Some g \<Rightarrow> parseInt g | None \<Rightarrow> None)
      | Inl e \<Rightarrow>
          (case sn_bodyText sn of
             Inl e' \<Rightarrow> None
           | Inr None \<Rightarrow> None
           | Inr (Some body) \<Rightarrow> firstPattern fallbackPatterns body))"

text \<open>Author inference where the structural author is empty: the inferred author is
  taken when there is one, the inferred content when it is not empty.\<close>

definition inferAuthor :: "string \<Rightarrow> string \<Rightarrow> string \<times> string" where
  "inferAuthor author content =
     (if author = [] \<and> content \<noteq> [] then
        (let inf = extractAuthorFromContent content
         in ((case fst inf of Some a \<Rightarrow> (if a \<noteq> [] then a else author) | None \<Rightarrow> author),
             (if snd inf \<noteq> [] then snd inf else content)))
      else (author, content))"

definition cleanReply :: "replyRaw \<Rightarrow> reply" where
  "cleanReply r =
     (let cleaned = cleanLines (rr_content r)
                      \<lparr>c_title = None, c_author = Some (rr_author r), c_time = Some (rr_time r)\<rparr>;
          ac = inferAuthor (trim (rr_author r)) cleaned
      in \<lparr>r_author = fst ac, r_time = rr_time r, r_content = snd ac, r_likes = rr_likes r\<rparr>)"

definition notEmpty :: "reply \<Rightarrow> bool" where
  "notEmpty r =
     ((r_author r \<noteq> [] \<and> length (trim (r_author r)) > 0)
      \<or> (r_content r \<noteq> [] \<and> length (trim (r_content r)) > 0))"

definition validReplies :: "replyRaw list \<Rightarrow> reply list" where
  "validReplies repliesRaw = filter notEmpty (map cleanReply repliesRaw)"

text \<open>Reply Reconciler: \<^verbatim>\<open>replies.slice(0, expectedReplies)\<close> when the count is a number
  that is not negative.\<close>

definition limitReplies :: "int option \<Rightarrow> reply list \<Rightarrow> reply list" where
  "limitReplies expected replies =
     (case expected of
        Some n \<Rightarrow> if n \<ge> 0 then take (nat n) replies else replies
      | None \<Rightarrow> replies)"

text \<open>Everything after the second expansion: the reads and the record built from them.
  Only the read of the main body is not guarded by a \<^verbatim>\<open>catch\<close>.\<close>

definition readDetail :: "snapshot \<Rightarrow> string \<Rightarrow> error + discussionDetail" where
  "readDetail sn url =
     (let title = caught (sn_title sn);
          mainAuthor = caught (sn_mainAuthor sn);
          mainTime = caught (sn_mainTime sn);
          mainRole = caught (sn_mainRole sn)
      in case sn_mainBody sn of
           Inl e \<Rightarrow> Inl e
         | Inr body \<Rightarrow>
            (let mainContentRaw = trimOrEmpty body;
                 mainContent0 = cleanLines mainContentRaw
                    \<lparr>c_title = map_option trim title, c_author = map_option trim mainAuthor,
                     c_time = map_option trim mainTime\<rparr>;
                 ac = inferAuthor (trimOrEmpty mainAuthor) mainContent0;
                 repliesRaw = pickReplies sn replySelectors [];
                 replies = validReplies repliesRaw;
                 limitedReplies = limitReplies (expectedReplies sn) replies;
                 viewCount = (case sn_viewIcons sn of Inl e \<Rightarrow> 0 | Inr n \<Rightarrow> int n)
             in Inr \<lparr> d_title = trimOrEmpty title,
                      d_url = url,
                      d_author = fst ac,
                      d_authorRole = normalizeWhitespace (case mainRole of None \<Rightarrow> [] | Some r \<Rightarrow> r),
                      d_time = trimOrEmpty mainTime,
                      d_content = trim (snd ac),
                      d_views = viewCount,
                      d_likes = 0,
                      d_comments = int (length limitedReplies),
                      d_replies = limitedReplies \<rparr>))"

definition scrapeDiscussionDetail ::
  "'p page_ops \<Rightarrow> 'p \<Rightarrow> string \<Rightarrow> (error + discussionDetail) \<times> 'p" where
  "scrapeDiscussionDetail ops p url =
     (case goto ops url p of
        (Some e, p1) \<Rightarrow> (Inl e, p1)
      | (None, p1) \<Rightarrow>
     (case waitForSelector ops ''article, [data-testid=MessageSubject]'' p1 of
        (Some e, p2) \<Rightarrow> (Inl e, p2)
      | (None, p2) \<Rightarrow>
     (case expandAllContent ops p2 of
        (Inl e, p3) \<Rightarrow> (Inl e, p3)
      | (Inr rounds1, p3) \<Rightarrow>
     (case scrollBulk ops p3 of
        (Some e, p4) \<Rightarrow> (Inl e, p4)
      | (None, p4) \<Rightarrow>
     (case expandAllContent ops p4 of
        (Inl e, p5) \<Rightarrow> (Inl e, p5)
      | (Inr rounds2, p5) \<Rightarrow> (readDetail (observe ops p5) url, p5))))))"

section \<open>List Crawler: the dedup store\<close>

text \<open>A row of the listing page as the callback of \<^verbatim>\<open>page.$$eval\<close> reads it; the title
  link gives its text and its \<^verbatim>\<open>href\<close>.\<close>

record rowEl =
  row_titleEl :: "(string \<times> string) option"
  row_author :: "string option"
  row_time :: "string option"
  row_views :: "string option"
  row_likes :: "string option"
  row_comments :: "string option"

text \<open>\<^verbatim>\<open>parseInt(x?.textContent?.replace(/\D/g, "") || "0")\<close>\<close>

definition counter :: "string option \<Rightarrow> int" where
  "counter x =
     (let ds = (case x of None \<Rightarrow> [] | Some t \<Rightarrow> digitsOnly t)
      in case parseInt (if ds = [] then ''0'' else ds) of None \<Rightarrow> 0 | Some n \<Rightarrow> n)"

definition summaryOf :: "rowEl \<Rightarrow> summary" where
  "summaryOf el =
     \<lparr> s_title = (case row_titleEl el of None \<Rightarrow> [] | Some (t, h) \<Rightarrow> trim t),
       s_url = (case row_titleEl el of None \<Rightarrow> [] | Some (t, h) \<Rightarrow> h),
       s_author = trimOrEmpty (row_author el),
       s_time = trimOrEmpty (row_time el),
       s_views = counter (row_views el),
       s_likes = counter (row_likes el),
       s_comments = counter (row_comments el) \<rparr>"

text \<open>\<^verbatim>\<open>collected\<close> is a JavaScript \<^verbatim>\<open>Map\<close>, which iterates in insertion order: an
  association list, new keys at the end.\<close>

type_synonym store = "(string \<times> summary) list"

definition has :: "store \<Rightarrow> string \<Rightarrow> bool" where
  "has collected u = (map_of collected u \<noteq> None)"

definition collectOne :: "store \<Rightarrow> summary \<Rightarrow> store" where
  "collectOne collected s =
     (if s_url s \<noteq> [] \<and> \<not> has collected (s_url s) then collected @ [(s_url s, s)] else collected)"

definition collectFromCurrentPage :: "store \<Rightarrow> rowEl list \<Rightarrow> store" where
  "collectFromCurrentPage collected items = foldl collectOne collected (map summaryOf items)"

text \<open>The store after the successive extractions of a crawl, each one the rows that the
  page showed at that call.\<close>

definition collectAll :: "rowEl list list \<Rightarrow> store" where
  "collectAll sightings = foldl collectFromCurrentPage [] sightings"

section \<open>Pipeline Driver: the loop over the collected discussions\<close>

datatype event = Opening string | RandomDelay | Scrape string | Failure string error | Delay nat

record 'p run =
  allDetails :: "discussionDetail list"
  logged :: "event list"
  page :: 'p

definition openOne :: "'p page_ops \<Rightarrow> 'p run \<Rightarrow> summary \<Rightarrow> 'p run" where
  "openOne ops st d =
     (let log1 = logged st @ [Opening (s_title d), RandomDelay, Scrape (s_url d)]
      in case scrapeDiscussionDetail ops (page st) (s_url d) of
           (Inr fullDetail, p') \<Rightarrow>
             \<lparr> allDetails = allDetails st @ [fullDetail\<lparr>d_views := s_views d, d_likes := s_likes d\<rparr>],
               logged = log1, page = p' \<rparr>
         | (Inl err, p') \<Rightarrow>
             \<lparr> allDetails = allDetails st,
               logged = log1 @ [Failure (s_url d) err, Delay 5000], page = p' \<rparr>)"

definition openEach :: "'p page_ops \<Rightarrow> 'p \<Rightarrow> store \<Rightarrow> 'p run" where
  "openEach ops p collected =
     foldl (openOne ops) \<lparr>allDetails = [], logged = [], page = p\<rparr> (map snd collected)"

section \<open>An example page\<close>

definition demoEl :: "string option \<Rightarrow> string \<Rightarrow> replyEl" where
  "demoEl a b = \<lparr>el_body = Some b, el_innerText = b, el_author = a, el_time = Some ''1h'',
                el_role = None, el_likeText = Some ''Like 3''\<rparr>"

text \<open>A thread by \<open>amy\<close> with four reply containers after the main post; the second one
  holds only a widget label, the third one has no author link.\<close>

definition demoSnap :: "error + string option \<Rightarrow> snapshot" where
  "demoSnap label =
     \<lparr> sn_title = Inr (Some ''Topic''), sn_mainAuthor = Inr (Some ''amy''),
       sn_mainTime = Inr (Some ''2d''), sn_mainRole = Inl LocatorFailed,
       sn_mainBody = Inr (Some ''Help''),
       sn_replyEls = (\<lambda>sel. if sel = ''article''
          then Inr [demoEl (Some ''amy'') ''Help'', demoEl (Some ''bob'') ''Yes'',
                    demoEl None ''Like'', demoEl None ''carl99: ok'', demoEl (Some ''dan'') ''No'']
          else Inl EvaluateFailed),
       sn_replyLabel = label, sn_bodyText = Inl EvaluateFailed, sn_viewIcons = Inr 2 \<rparr>"

text \<open>The page state counts the activations so far. There is one reveal control, which
  disappears once activated; the address \<open>''bad''\<close> cannot be opened.\<close>

definition demoOps :: "error + string option \<Rightarrow> nat page_ops" where
  "demoOps label =
     \<lparr> goto = (\<lambda>url p. if url = ''bad'' then (Some GotoFailed, p) else (None, 0)),
       waitForSelector = (\<lambda>sel p. (None, p)),
       locCount = (\<lambda>sel p. Inr (if sel = ''a:has-text(Show more)'' then 1 else 0)),
       isVisible = (\<lambda>sel i p. p = 0),
       click = (\<lambda>sel i p. Suc p),
       wheel = (\<lambda>p. (None, p)),
       scrollBulk = (\<lambda>p. (None, p)),
       observe = (\<lambda>p. demoSnap label) \<rparr>"

text \<open>What the Detail Extractor returns for this thread at the address \<open>''u''\<close> when it
  keeps the first \<open>n\<close> of the three replies that are not empty.\<close>

definition demoDetail :: "nat \<Rightarrow> discussionDetail" where
  "demoDetail n =
     \<lparr> d_title = ''Topic'', d_url = ''u'', d_author = ''amy'', d_authorRole = [], d_time = ''2d'',
       d_content = ''Help'', d_views = 2, d_likes = 0, d_comments = int (min n 3),
       d_replies = take n
         [\<lparr>r_author = ''bob'', r_time = ''1h'', r_content = ''Yes'', r_likes = 3\<rparr>,
          \<lparr>r_author = ''carl99'', r_time = ''1h'', r_content = ''ok'', r_likes = 3\<rparr>,
          \<lparr>r_author = ''dan'', r_time = ''1h'', r_content = ''No'', r_likes = 3\<rparr>] \<rparr>"

section \<open>Reading the log of a run\<close>

fun scraped :: "event list \<Rightarrow> string list" where
  "scraped [] = []"
| "scraped (Scrape u # es) = u # scraped es"
| "scraped (_ # es) = scraped es"

fun failures :: "event list \<Rightarrow> string list" where
  "failures [] = []"
| "failures (Failure u e # es) = u # failures es"
| "failures (_ # es) = failures es"

fun longDelays :: "event list \<Rightarrow> nat" where
  "longDelays [] = 0"
| "longDelays (Delay ms # es) = (if ms = 5000 then Suc (longDelays es) else longDelays es)"
| "longDelays (_ # es) = longDelays es"

text \<open>\<open>patched ops ds g\<close>: the record \<open>g\<close> is what the Detail Extractor returned for one
  of the summaries \<open>ds\<close>, with the two counters of that summary written over it.\<close>

definition patched :: "'p page_ops \<Rightarrow> summary list \<Rightarrow> discussionDetail \<Rightarrow> bool" where
  "patched ops ds g =
     (\<exists>d \<in> set ds. \<exists>q f. fst (scrapeDiscussionDetail ops q (s_url d)) = Inr f \<and> d_likes f = 0
        \<and> g = f\<lparr>d_views := s_views d, d_likes := s_likes d\<rparr>)"

definition demoSummary :: "string \<Rightarrow> summary" where
  "demoSummary u = \<lparr>s_title = ''Topic'', s_url = u, s_author = ''amy'', s_time = ''2d'',
                    s_views = 7, s_likes = 9, s_comments = 4\<rparr>"

text \<open>A run over three collected discussions, the second of which cannot be opened.\<close>

definition demoRun :: "nat run" where
  "demoRun = openEach (demoOps (Inr None)) 0
     [(''a'', demoSummary ''a''), (''bad'', demoSummary ''bad''), (''b'', demoSummary ''b'')]"

text \<open>A listing row with a title, an address and a view counter.\<close>

definition demoRow :: "string \<Rightarrow> string \<Rightarrow> string \<Rightarrow> rowEl" where
  "demoRow title href views =
     \<lparr> row_titleEl = Some (title, href), row_author = Some ''amy'', row_time = None,
       row_views = Some views, row_likes = None, row_comments = Some ''2 replies'' \<rparr>"

section \<open>Pages with nothing left to reveal\<close>

text \<open>\<open>selQuiet ops p sel\<close>: the query for \<open>sel\<close> succeeds on \<open>p\<close> and none of its matches
  is visible. \<open>quiet ops p\<close>: that holds for every selector of the Content Revealer.\<close>

definition selQuiet :: "'p page_ops \<Rightarrow> 'p \<Rightarrow> string \<Rightarrow> bool" where
  "selQuiet ops p sel =
     (case locCount ops sel p of
        Inl e \<Rightarrow> False
      | Inr c \<Rightarrow> list_all (\<lambda>i. \<not> isVisible ops sel i p) [0..<c])"

definition quiet :: "'p page_ops \<Rightarrow> 'p \<Rightarrow> bool" where
  "quiet ops p = list_all (selQuiet ops p) selectors"

text \<open>\<open>static ops\<close>: the small scroll step changes neither the number of matches of a
  selector nor their visibility.\<close>

definition static :: "'p page_ops \<Rightarrow> bool" where
  "static ops =
     (\<forall>q sel i. locCount ops sel (snd (wheel ops q)) = locCount ops sel q
        \<and> isVisible ops sel i (snd (wheel ops q)) = isVisible ops sel i q)"

text \<open>A page whose reveal control stays visible however often it is activated.\<close>

definition stuckOps :: "nat page_ops" where
  "stuckOps =
     \<lparr> goto = (\<lambda>url p. (None, 0)),
       waitForSelector = (\<lambda>sel p. (None, p)),
       locCount = (\<lambda>sel p. Inr (if sel = ''a:has-text(Show more)'' then 1 else 0)),
       isVisible = (\<lambda>sel i p. True),
       click = (\<lambda>sel i p. Suc p),
       wheel = (\<lambda>p. (None, p)),
       scrollBulk = (\<lambda>p. (None, p)),
       observe = (\<lambda>p. demoSnap (Inr None)) \<rparr>"

section \<open>Shapes of text for author inference\<close>

text \<open>\<open>lastc pre xs\<close>: the character before the position reached from \<open>pre\<close> after the
  text \<open>xs\<close>. \<open>stops k ys\<close>: a run of the class \<open>k\<close> cannot go on into \<open>ys\<close>. \<open>isTok\<close>
  and \<open>isSep\<close> are the two character classes of the author pattern, \<open>tokenShape\<close> the
  shape of its first group with a last character that is not a hyphen.\<close>

definition lastc :: "char option \<Rightarrow> string \<Rightarrow> char option" where
  "lastc pre xs = (if xs = [] then pre else Some (last xs))"

definition stops :: "cls \<Rightarrow> string \<Rightarrow> bool" where
  "stops k ys = (case ys of [] \<Rightarrow> True | y # _ \<Rightarrow> \<not> inCls k y)"

definition isTok :: "char \<Rightarrow> bool" where
  "isTok c = inCls (Union Word (Chars ''-'')) c"

definition isSep :: "char \<Rightarrow> bool" where
  "isSep c = inCls (Union Space (Chars '',:-'')) c"

definition tokenShape :: "string \<Rightarrow> bool" where
  "tokenShape t =
     (case t of [] \<Rightarrow> False
      | c # cs \<Rightarrow> isAlpha c \<and> list_all isTok cs \<and> 2 \<le> length cs \<and> isWordChar (last cs))"

section \<open>Plain text and noise lines\<close>






section \<open>Facts about the matcher\<close>

lemma lit_suffix: "q \<in> set (lit f s p) \<Longrightarrow> length (snd q) \<le> length (snd p)"
  by (induction f s p rule: lit.induct) (auto split: if_splits)

lemma rep_suffix: "q \<in> set (rep k lo hi p) \<Longrightarrow> length (snd q) \<le> length (snd p)"
  by (induction k lo hi p rule: rep.induct) (fastforce split: if_splits)+

lemma repLazy_suffix: "q \<in> set (repLazy k p) \<Longrightarrow> length (snd q) \<le> length (snd p)"
  by (induction k p rule: repLazy.induct) (fastforce split: if_splits)+

lemma rxm_suffix: "q \<in> set (rxm r p) \<Longrightarrow> length (snd q) \<le> length (snd p)"
proof (induction r arbitrary: p q)
  case (Seq a b)
  then obtain m where "m \<in> set (rxm a p)" "q \<in> set (rxm b m)" by auto
  with Seq.IH show ?case by (meson le_trans)
qed (auto dest: lit_suffix rep_suffix repLazy_suffix split: if_splits)

lemma scanSegs_Some:
  "scanSegs rs p = Some ps \<Longrightarrow> \<exists>s bs. ps = s # bs \<and> bs \<in> set (segs rs s)"
  by (induction rs p arbitrary: ps rule: scanSegs.induct) (auto split: list.splits)

section \<open>A declared reply count is never negative\<close>

lemma rep_digit_head:
  assumes q: "q \<in> set (rep Digit (Suc lo) hi p)"
  shows "\<exists>c cs. between p q = c # cs \<and> isDigit c"
proof (cases p)
  case (Pair pre post)
  show ?thesis
  proof (cases post)
    case Nil
    with q Pair show ?thesis by simp
  next
    case (Cons c cs)
    with q Pair have d: "isDigit c"
      and m: "q \<in> set (rep Digit lo (map_option (\<lambda>h. h - 1) hi) (Some c, cs))"
      by (auto split: if_splits)
    from rep_suffix [OF m] have "length (snd q) \<le> length cs" by simp
    then have "between p q = c # take (length cs - length (snd q)) cs"
      by (simp add: between_def Pair Cons Suc_diff_le)
    with d show ?thesis by blast
  qed
qed

lemma digitsToInt_nonneg: "0 \<le> digitsToInt ds"
proof -
  have "0 \<le> n \<Longrightarrow> 0 \<le> foldl (\<lambda>n c. 10 * n + digitVal c) n ds" for n
    by (induction ds arbitrary: n) (auto simp: digitVal_def digits_def)
  then show ?thesis by (simp add: digitsToInt_def)
qed

lemma isDigit_not_space: "isDigit c \<Longrightarrow> \<not> isSpace c"
  by (auto simp: isDigit_def isSpace_def digits_def)

lemma isDigit_not_sign: "isDigit c \<Longrightarrow> c \<noteq> CHR ''-'' \<and> c \<noteq> CHR ''+''"
  by (auto simp: isDigit_def digits_def)

lemma parseInt_digit_head: "isDigit c \<Longrightarrow> parseInt (c # cs) = Some n \<Longrightarrow> 0 \<le> n"
  using isDigit_not_sign [of c]
  by (auto simp: parseInt_def parseDigits_def isDigit_not_space digitsToInt_nonneg Let_def
      split: if_splits)

lemma firstGroup_digits0:
  assumes "firstGroup (Rep Digit (Suc lo) hi # rs) 0 s = Some g"
  shows "\<exists>c cs. g = c # cs \<and> isDigit c"
proof -
  from assms obtain ps where ps: "scanSegs (Rep Digit (Suc lo) hi # rs) (None, s) = Some ps"
    and g: "g = between (ps ! 0) (ps ! Suc 0)"
    by (auto simp: firstGroup_def split: option.splits)
  from scanSegs_Some [OF ps] obtain st bs
    where "ps = st # bs" "bs \<in> set (segs (Rep Digit (Suc lo) hi # rs) st)"
    by blast
  then obtain q qs where "bs = q # qs" "q \<in> set (rep Digit (Suc lo) hi st)" by auto
  with \<open>ps = st # bs\<close> g rep_digit_head show ?thesis by simp
qed

lemma firstGroup_digits1:
  assumes "firstGroup [a, Rep Digit (Suc lo) hi] (Suc 0) s = Some g"
  shows "\<exists>c cs. g = c # cs \<and> isDigit c"
proof -
  from assms obtain ps where ps: "scanSegs [a, Rep Digit (Suc lo) hi] (None, s) = Some ps"
    and g: "g = between (ps ! Suc 0) (ps ! Suc (Suc 0))"
    by (auto simp: firstGroup_def split: option.splits)
  from scanSegs_Some [OF ps] obtain st bs
    where "ps = st # bs" "bs \<in> set (segs [a, Rep Digit (Suc lo) hi] st)"
    by blast
  then obtain q1 q2 where "bs = [q1, q2]" "q2 \<in> set (rep Digit (Suc lo) hi q1)" by auto
  with \<open>ps = st # bs\<close> g rep_digit_head show ?thesis by simp
qed

lemma firstPattern_nonneg: "firstPattern fallbackPatterns s = Some n \<Longrightarrow> 0 \<le> n"
  unfolding fallbackPatterns_def
  by (auto simp: numeral_eq_Suc split: option.splits
      dest!: firstGroup_digits0 firstGroup_digits1 dest: parseInt_digit_head)

lemma expectedReplies_nonneg: "expectedReplies sn = Some n \<Longrightarrow> 0 \<le> n"
  by (auto simp: expectedReplies_def numeral_eq_Suc split: sum.splits option.splits
      dest!: firstGroup_digits0 dest: parseInt_digit_head firstPattern_nonneg)

section \<open>The Detail Extractor\<close>

lemma scrape_reads:
  "scrapeDiscussionDetail ops p url = (Inr f, p') \<Longrightarrow> readDetail (observe ops p') url = Inr f"
  by (auto simp: scrapeDiscussionDetail_def split: prod.splits option.splits sum.splits)

lemma readDetail_replies:
  "readDetail sn url = Inr f \<Longrightarrow>
     d_replies f = limitReplies (expectedReplies sn) (validReplies (pickReplies sn replySelectors []))
     \<and> d_comments f = int (length (d_replies f)) \<and> d_likes f = 0 \<and> d_url f = url"
  by (auto simp: readDetail_def Let_def split: sum.splits)

text \<open>
  C1. For every discussion the Detail Extractor returns: when a declared reply count
  \<open>n\<close> is read from the page, \<open>n\<close> is not negative and the final replies are the
  first \<open>n\<close> extracted replies, so at most \<open>n\<close> of them, in the order of discovery;
  when no declared count is found, the final replies are the extracted replies,
  unmodified; in both cases \<open>comments\<close> is the length of the final list.
\<close>

theorem replies_reconciled:
  assumes "scrapeDiscussionDetail ops p url = (Inr f, p')"
  shows "(\<forall>n. expectedReplies (observe ops p') = Some n \<longrightarrow>
            0 \<le> n \<and> int (length (d_replies f)) \<le> n
            \<and> d_replies f = take (nat n) (validReplies (pickReplies (observe ops p') replySelectors [])))
       \<and> (expectedReplies (observe ops p') = None \<longrightarrow>
            d_replies f = validReplies (pickReplies (observe ops p') replySelectors []))
       \<and> d_comments f = int (length (d_replies f))"
proof -
  from assms have r: "readDetail (observe ops p') url = Inr f" by (rule scrape_reads)
  note d = readDetail_replies [OF r]
  show ?thesis
  proof (intro conjI allI impI)
    fix n assume e: "expectedReplies (observe ops p') = Some n"
    then show n: "0 \<le> n" by (rule expectedReplies_nonneg)
    from d e n
    show t: "d_replies f = take (nat n) (validReplies (pickReplies (observe ops p') replySelectors []))"
      by (simp add: limitReplies_def)
    have "length (d_replies f) \<le> nat n" by (subst t) simp
    with n show "int (length (d_replies f)) \<le> n" by linarith
  next
    assume "expectedReplies (observe ops p') = None"
    with d show "d_replies f = validReplies (pickReplies (observe ops p') replySelectors [])"
      by (simp add: limitReplies_def)
  next
    from d show "d_comments f = int (length (d_replies f))" by simp
  qed
qed

theorem replies_reconciled_witness:
  "scrapeDiscussionDetail (demoOps (Inr (Some ''2 Replies''))) 5 ''u'' = (Inr (demoDetail 2), 1)
   \<and> expectedReplies (observe (demoOps (Inr (Some ''2 Replies''))) 1) = Some 2
   \<and> int (length (d_replies (demoDetail 2))) \<le> 2
   \<and> d_comments (demoDetail 2) = int (length (d_replies (demoDetail 2)))
   \<and> scrapeDiscussionDetail (demoOps (Inr None)) 5 ''u'' = (Inr (demoDetail 3), 1)
   \<and> expectedReplies (observe (demoOps (Inr None)) 1) = None
   \<and> d_replies (demoDetail 3) =
       validReplies (pickReplies (observe (demoOps (Inr None)) 1) replySelectors [])"
proof -
  have o: "observe (demoOps l) q = demoSnap l" for l q by (simp add: demoOps_def)
  have "expectedReplies (demoSnap (Inr (Some ''2 Replies''))) = Some 2" by code_simp
  then have e2: "expectedReplies (observe (demoOps (Inr (Some ''2 Replies''))) 1) = Some 2"
    by (simp only: o)
  have "expectedReplies (demoSnap (Inr None)) = None" by code_simp
  then have e0: "expectedReplies (observe (demoOps (Inr None)) 1) = None"
    by (simp only: o)
  have h2: "scrapeDiscussionDetail (demoOps (Inr (Some ''2 Replies''))) 5 ''u'' = (Inr (demoDetail 2), 1)"
    by code_simp
  have h0: "scrapeDiscussionDetail (demoOps (Inr None)) 5 ''u'' = (Inr (demoDetail 3), 1)"
    by code_simp
  from replies_reconciled [OF h2] e2
  have c2: "int (length (d_replies (demoDetail 2))) \<le> 2
      \<and> d_comments (demoDetail 2) = int (length (d_replies (demoDetail 2)))"
    by blast
  from replies_reconciled [OF h0] e0
  have c0: "d_replies (demoDetail 3) =
       validReplies (pickReplies (observe (demoOps (Inr None)) 1) replySelectors [])"
    by blast
  from h2 e2 c2 h0 e0 c0 show ?thesis by blast
qed

lemma trim_Nil: "trim [] = []"
  by (simp add: trim_def)

lemma notEmpty_iff: "notEmpty r \<longleftrightarrow> trim (r_author r) \<noteq> [] \<or> trim (r_content r) \<noteq> []"
  using trim_Nil by (auto simp: notEmpty_def)

lemma limitReplies_subset: "set (limitReplies e rs) \<subseteq> set rs"
  by (auto simp: limitReplies_def split: option.splits dest: in_set_takeD)

lemma validReplies_set: "set (validReplies raw) = {r \<in> cleanReply ` set raw. notEmpty r}"
  by (auto simp: validReplies_def)

text \<open>
  C6. Every reply in the record that the Detail Extractor returns is the cleaned form of
  a candidate and has an author or a content that is not empty, and not only white space;
  a candidate whose author and content are both empty or white space after cleaning and
  author inference does not appear among the replies.
\<close>

theorem empty_replies_dropped:
  assumes "scrapeDiscussionDetail ops p url = (Inr f, p')"
  shows "(\<forall>r \<in> set (d_replies f).
            (trim (r_author r) \<noteq> [] \<or> trim (r_content r) \<noteq> [])
            \<and> (r_author r \<noteq> [] \<or> r_content r \<noteq> [])
            \<and> r \<in> cleanReply ` set (pickReplies (observe ops p') replySelectors []))
       \<and> (\<forall>c \<in> set (pickReplies (observe ops p') replySelectors []).
            trim (r_author (cleanReply c)) = [] \<and> trim (r_content (cleanReply c)) = []
            \<longrightarrow> cleanReply c \<notin> set (d_replies f))"
proof -
  let ?raw = "pickReplies (observe ops p') replySelectors []"
  from assms have "readDetail (observe ops p') url = Inr f" by (rule scrape_reads)
  then have "d_replies f = limitReplies (expectedReplies (observe ops p')) (validReplies ?raw)"
    by (simp add: readDetail_replies)
  then have "set (d_replies f) \<subseteq> set (validReplies ?raw)"
    by (simp add: limitReplies_subset)
  then have sub: "set (d_replies f) \<subseteq> {r \<in> cleanReply ` set ?raw. notEmpty r}"
    by (simp only: validReplies_set)
  have ne: "r_author r \<noteq> [] \<or> r_content r \<noteq> []"
    if "trim (r_author r) \<noteq> [] \<or> trim (r_content r) \<noteq> []" for r
    using that trim_Nil by auto
  show ?thesis
  proof (intro conjI ballI impI)
    fix r assume "r \<in> set (d_replies f)"
    with sub have r: "r \<in> cleanReply ` set ?raw" "notEmpty r" by auto
    from r(2) show t: "trim (r_author r) \<noteq> [] \<or> trim (r_content r) \<noteq> []"
      by (simp add: notEmpty_iff)
    from t show "r_author r \<noteq> [] \<or> r_content r \<noteq> []" by (rule ne)
    from r(1) show "r \<in> cleanReply ` set ?raw" .
  next
    fix c assume "c \<in> set ?raw"
      and b: "trim (r_author (cleanReply c)) = [] \<and> trim (r_content (cleanReply c)) = []"
    from b have "\<not> notEmpty (cleanReply c)" by (simp add: notEmpty_iff)
    with sub show "cleanReply c \<notin> set (d_replies f)" by auto
  qed
qed

theorem empty_replies_dropped_witness:
  "scrapeDiscussionDetail (demoOps (Inr None)) 5 ''u'' = (Inr (demoDetail 3), 1)
   \<and> rawOfEl (demoEl None ''Like'') \<in> set (pickReplies (observe (demoOps (Inr None)) 1) replySelectors [])
   \<and> trim (r_author (cleanReply (rawOfEl (demoEl None ''Like'')))) = []
   \<and> trim (r_content (cleanReply (rawOfEl (demoEl None ''Like'')))) = []
   \<and> cleanReply (rawOfEl (demoEl None ''Like'')) \<notin> set (d_replies (demoDetail 3))
   \<and> list_all (\<lambda>r. r_author r \<noteq> [] \<or> r_content r \<noteq> []) (d_replies (demoDetail 3))"
proof -
  have o: "observe (demoOps l) q = demoSnap l" for l q by (simp add: demoOps_def)
  have h: "scrapeDiscussionDetail (demoOps (Inr None)) 5 ''u'' = (Inr (demoDetail 3), 1)"
    by code_simp
  have "pickReplies (demoSnap (Inr None)) replySelectors [] =
          map rawOfEl [demoEl (Some ''bob'') ''Yes'', demoEl None ''Like'',
                       demoEl None ''carl99: ok'', demoEl (Some ''dan'') ''No'']"
    by (simp add: demoSnap_def replySelectors_def)
  then have m: "rawOfEl (demoEl None ''Like'')
      \<in> set (pickReplies (observe (demoOps (Inr None)) 1) replySelectors [])"
    by (simp add: o)
  have a: "trim (r_author (cleanReply (rawOfEl (demoEl None ''Like'')))) = []" by code_simp
  have c: "trim (r_content (cleanReply (rawOfEl (demoEl None ''Like'')))) = []" by code_simp
  note t = empty_replies_dropped [OF h]
  from t m a c have n: "cleanReply (rawOfEl (demoEl None ''Like'')) \<notin> set (d_replies (demoDetail 3))"
    by blast
  from t have "\<forall>r \<in> set (d_replies (demoDetail 3)). r_author r \<noteq> [] \<or> r_content r \<noteq> []"
    by blast
  then have e: "list_all (\<lambda>r. r_author r \<noteq> [] \<or> r_content r \<noteq> []) (d_replies (demoDetail 3))"
    by (simp only: list_all_iff)
  from h m a c n e show ?thesis by blast
qed

lemma openOne_ok:
  "scrapeDiscussionDetail ops (page st) (s_url d) = (Inr f, p') \<Longrightarrow>
   openOne ops st d =
     \<lparr> allDetails = allDetails st @ [f\<lparr>d_views := s_views d, d_likes := s_likes d\<rparr>],
       logged = logged st @ [Opening (s_title d), RandomDelay, Scrape (s_url d)], page = p' \<rparr>"
  by (simp add: openOne_def)

lemma openOne_failed:
  "scrapeDiscussionDetail ops (page st) (s_url d) = (Inl e, p') \<Longrightarrow>
   openOne ops st d =
     \<lparr> allDetails = allDetails st,
       logged = logged st @ [Opening (s_title d), RandomDelay, Scrape (s_url d),
                             Failure (s_url d) e, Delay 5000],
       page = p' \<rparr>"
  by (simp add: openOne_def)

lemma openOne_details:
  "set (allDetails (openOne ops st d)) \<subseteq> set (allDetails st) \<union> {g. patched ops [d] g}"
proof (cases "scrapeDiscussionDetail ops (page st) (s_url d)")
  case (Pair r p')
  show ?thesis
  proof (cases r)
    case (Inl e)
    with Pair show ?thesis by (simp add: openOne_failed)
  next
    case (Inr f)
    with Pair have s: "scrapeDiscussionDetail ops (page st) (s_url d) = (Inr f, p')" by simp
    from scrape_reads [OF s] have "d_likes f = 0" by (simp add: readDetail_replies)
    with s have "patched ops [d] (f\<lparr>d_views := s_views d, d_likes := s_likes d\<rparr>)"
      unfolding patched_def by (metis fst_conv list.set_intros(1))
    with s show ?thesis by (simp add: openOne_ok)
  qed
qed

lemma patched_mono: "patched ops ds g \<Longrightarrow> set ds \<subseteq> set es \<Longrightarrow> patched ops es g"
  unfolding patched_def by blast

lemma loop_details:
  "set (allDetails (foldl (openOne ops) st ds)) \<subseteq> set (allDetails st) \<union> {g. patched ops ds g}"
proof (induction ds arbitrary: st)
  case Nil
  show ?case by simp
next
  case (Cons d ds)
  have "set (allDetails (foldl (openOne ops) (openOne ops st d) ds))
          \<subseteq> set (allDetails (openOne ops st d)) \<union> {g. patched ops ds g}"
    by (rule Cons.IH)
  also have "\<dots> \<subseteq> (set (allDetails st) \<union> {g. patched ops [d] g}) \<union> {g. patched ops ds g}"
    using openOne_details [of ops st d] by blast
  also have "\<dots> \<subseteq> set (allDetails st) \<union> {g. patched ops (d # ds) g}"
    using patched_mono [of ops "[d]" _ "d # ds"] patched_mono [of ops ds _ "d # ds"] by auto
  finally show ?case by simp
qed

text \<open>
  C8. The Detail Extractor returns \<open>likes = 0\<close>. The driver appends the returned record
  with \<open>views\<close> and \<open>likes\<close> replaced by the values of the summary; the title, address,
  author, role, time, content, comments and replies of the appended record are those the
  Detail Extractor returned. Every record of a run is such a record for one of the
  collected summaries.
\<close>

theorem counters_from_listing:
  assumes "scrapeDiscussionDetail ops (page st) (s_url d) = (Inr f, p')"
  shows "d_likes f = 0
       \<and> allDetails (openOne ops st d) = allDetails st @ [f\<lparr>d_views := s_views d, d_likes := s_likes d\<rparr>]
       \<and> (let g = last (allDetails (openOne ops st d))
          in d_views g = s_views d \<and> d_likes g = s_likes d
             \<and> d_title g = d_title f \<and> d_url g = d_url f \<and> d_author g = d_author f
             \<and> d_authorRole g = d_authorRole f \<and> d_time g = d_time f
             \<and> d_content g = d_content f \<and> d_comments g = d_comments f
             \<and> d_replies g = d_replies f)
       \<and> (\<forall>g \<in> set (allDetails (openEach ops p collected)).
            \<exists>d \<in> snd ` set collected. \<exists>q f.
              fst (scrapeDiscussionDetail ops q (s_url d)) = Inr f \<and> d_likes f = 0
              \<and> g = f\<lparr>d_views := s_views d, d_likes := s_likes d\<rparr>)"
proof (intro conjI)
  from scrape_reads [OF assms] show "d_likes f = 0" by (simp add: readDetail_replies)
  from assms show a: "allDetails (openOne ops st d)
      = allDetails st @ [f\<lparr>d_views := s_views d, d_likes := s_likes d\<rparr>]"
    by (simp add: openOne_ok)
  show "let g = last (allDetails (openOne ops st d))
          in d_views g = s_views d \<and> d_likes g = s_likes d
             \<and> d_title g = d_title f \<and> d_url g = d_url f \<and> d_author g = d_author f
             \<and> d_authorRole g = d_authorRole f \<and> d_time g = d_time f
             \<and> d_content g = d_content f \<and> d_comments g = d_comments f
             \<and> d_replies g = d_replies f"
    by (simp add: a)
  show "\<forall>g \<in> set (allDetails (openEach ops p collected)).
            \<exists>d \<in> snd ` set collected. \<exists>q f.
              fst (scrapeDiscussionDetail ops q (s_url d)) = Inr f \<and> d_likes f = 0
              \<and> g = f\<lparr>d_views := s_views d, d_likes := s_likes d\<rparr>"
    using loop_details [of ops "\<lparr>allDetails = [], logged = [], page = p\<rparr>" "map snd collected"]
    by (auto simp: openEach_def patched_def)
qed


theorem counters_from_listing_witness:
  "scrapeDiscussionDetail (demoOps (Inr None)) (page \<lparr>allDetails = [], logged = [], page = 0\<rparr>)
       (s_url (demoSummary ''u'')) = (Inr (demoDetail 3), 1)
   \<and> d_likes (demoDetail 3) = 0
   \<and> allDetails (openOne (demoOps (Inr None)) \<lparr>allDetails = [], logged = [], page = 0\<rparr> (demoSummary ''u''))
       = [(demoDetail 3)\<lparr>d_views := s_views (demoSummary ''u''), d_likes := s_likes (demoSummary ''u'')\<rparr>]
   \<and> allDetails (openEach (demoOps (Inr None)) 0 [(''u'', demoSummary ''u'')])
       = [(demoDetail 3)\<lparr>d_views := 7, d_likes := 9\<rparr>]
   \<and> list_all
        (\<lambda>g. \<exists>d \<in> snd ` set [(''u'', demoSummary ''u'')]. \<exists>q f.
          fst (scrapeDiscussionDetail (demoOps (Inr None)) q (s_url d)) = Inr f \<and> d_likes f = 0
          \<and> g = f\<lparr>d_views := s_views d, d_likes := s_likes d\<rparr>)
        (allDetails (openEach (demoOps (Inr None)) 0 [(''u'', demoSummary ''u'')]))"
proof -
  have "scrapeDiscussionDetail (demoOps (Inr None)) 0 ''u'' = (Inr (demoDetail 3), 1)"
    by code_simp
  then have h: "scrapeDiscussionDetail (demoOps (Inr None))
       (page \<lparr>allDetails = [], logged = [], page = 0\<rparr>) (s_url (demoSummary ''u''))
       = (Inr (demoDetail 3), 1)"
    by (simp add: demoSummary_def)
  note t = counters_from_listing [OF h, of 0 "[(''u'', demoSummary ''u'')]"]
  have e: "allDetails (openEach (demoOps (Inr None)) 0 [(''u'', demoSummary ''u'')])
       = [(demoDetail 3)\<lparr>d_views := 7, d_likes := 9\<rparr>]"
    using h by (simp add: openEach_def openOne_def demoSummary_def)
  from t have c1: "d_likes (demoDetail 3) = 0" by blast
  from t have c2: "allDetails (openOne (demoOps (Inr None)) \<lparr>allDetails = [], logged = [], page = 0\<rparr> (demoSummary ''u''))
       = [(demoDetail 3)\<lparr>d_views := s_views (demoSummary ''u''), d_likes := s_likes (demoSummary ''u'')\<rparr>]"
    by simp
  from t have "\<forall>g \<in> set (allDetails (openEach (demoOps (Inr None)) 0 [(''u'', demoSummary ''u'')])).
        \<exists>d \<in> snd ` set [(''u'', demoSummary ''u'')]. \<exists>q f.
          fst (scrapeDiscussionDetail (demoOps (Inr None)) q (s_url d)) = Inr f \<and> d_likes f = 0
          \<and> g = f\<lparr>d_views := s_views d, d_likes := s_likes d\<rparr>"
    by blast
  then have c3: "list_all
        (\<lambda>g. \<exists>d \<in> snd ` set [(''u'', demoSummary ''u'')]. \<exists>q f.
          fst (scrapeDiscussionDetail (demoOps (Inr None)) q (s_url d)) = Inr f \<and> d_likes f = 0
          \<and> g = f\<lparr>d_views := s_views d, d_likes := s_likes d\<rparr>)
        (allDetails (openEach (demoOps (Inr None)) 0 [(''u'', demoSummary ''u'')]))"
    by (simp only: list_all_iff)
  from h c1 c2 e c3 show ?thesis by blast
qed

lemma scraped_append: "scraped (xs @ ys) = scraped xs @ scraped ys"
  by (induction xs rule: scraped.induct) auto

lemma failures_append: "failures (xs @ ys) = failures xs @ failures ys"
  by (induction xs rule: failures.induct) auto

lemma longDelays_append: "longDelays (xs @ ys) = longDelays xs + longDelays ys"
  by (induction xs rule: longDelays.induct) auto

lemma openOne_counts:
  "scraped (logged (openOne ops st d)) = scraped (logged st) @ [s_url d]
   \<and> length (allDetails (openOne ops st d)) + length (failures (logged (openOne ops st d)))
       = Suc (length (allDetails st) + length (failures (logged st)))
   \<and> longDelays (logged (openOne ops st d)) - longDelays (logged st)
       = length (failures (logged (openOne ops st d))) - length (failures (logged st))
   \<and> longDelays (logged st) \<le> longDelays (logged (openOne ops st d))
   \<and> length (failures (logged st)) \<le> length (failures (logged (openOne ops st d)))"
proof (cases "scrapeDiscussionDetail ops (page st) (s_url d)")
  case (Pair r p')
  then show ?thesis
    by (cases r)
      (simp_all add: openOne_ok openOne_failed scraped_append failures_append longDelays_append)
qed

lemma loop_counts:
  "scraped (logged (foldl (openOne ops) st ds)) = scraped (logged st) @ map s_url ds
   \<and> length (allDetails (foldl (openOne ops) st ds)) + length (failures (logged (foldl (openOne ops) st ds)))
       = length ds + (length (allDetails st) + length (failures (logged st)))
   \<and> longDelays (logged (foldl (openOne ops) st ds)) + length (failures (logged st))
       = length (failures (logged (foldl (openOne ops) st ds))) + longDelays (logged st)"
proof (induction ds arbitrary: st)
  case Nil
  show ?case by simp
next
  case (Cons d ds)
  from Cons.IH [of "openOne ops st d"] openOne_counts [of ops st d]
  show ?case by (simp del: foldl_Cons add: foldl_Cons [of "openOne ops" st d ds]) linarith
qed

text \<open>
  C7. When extracting a discussion fails, after any discussions \<open>pre\<close> and before any
  discussions \<open>post\<close>, the run goes on with \<open>post\<close>: the records collected so far are
  kept, none is added for the failed discussion, and the failure and a delay of 5000 ms
  are logged. In every run each collected discussion is scraped once, in order; each of
  them yields either a record or a failure; and there are as many delays of 5000 ms as
  failures. The loop itself has no failing outcome.
\<close>

theorem failure_isolated:
  assumes "scrapeDiscussionDetail ops (page (foldl (openOne ops) st pre)) (s_url d) = (Inl e, p')"
  shows "foldl (openOne ops) st (pre @ d # post)
           = foldl (openOne ops)
               \<lparr> allDetails = allDetails (foldl (openOne ops) st pre),
                 logged = logged (foldl (openOne ops) st pre)
                   @ [Opening (s_title d), RandomDelay, Scrape (s_url d), Failure (s_url d) e, Delay 5000],
                 page = p' \<rparr> post
       \<and> scraped (logged (openEach ops p collected)) = map (s_url \<circ> snd) collected
       \<and> length (allDetails (openEach ops p collected))
            + length (failures (logged (openEach ops p collected))) = length collected
       \<and> longDelays (logged (openEach ops p collected))
            = length (failures (logged (openEach ops p collected)))"
proof (intro conjI)
  from assms show "foldl (openOne ops) st (pre @ d # post)
           = foldl (openOne ops)
               \<lparr> allDetails = allDetails (foldl (openOne ops) st pre),
                 logged = logged (foldl (openOne ops) st pre)
                   @ [Opening (s_title d), RandomDelay, Scrape (s_url d), Failure (s_url d) e, Delay 5000],
                 page = p' \<rparr> post"
    by (simp add: openOne_failed)
  note c = loop_counts [of ops "\<lparr>allDetails = [], logged = [], page = p\<rparr>" "map snd collected"]
  from c show "scraped (logged (openEach ops p collected)) = map (s_url \<circ> snd) collected"
    by (simp add: openEach_def)
  from c show "length (allDetails (openEach ops p collected))
            + length (failures (logged (openEach ops p collected))) = length collected"
    by (simp add: openEach_def)
  from c show "longDelays (logged (openEach ops p collected))
            = length (failures (logged (openEach ops p collected)))"
    by (simp add: openEach_def)
qed

theorem failure_isolated_witness:
  "scrapeDiscussionDetail (demoOps (Inr None))
       (page (foldl (openOne (demoOps (Inr None))) \<lparr>allDetails = [], logged = [], page = 0\<rparr> [demoSummary ''a'']))
       (s_url (demoSummary ''bad''))
     = (Inl GotoFailed,
        page (foldl (openOne (demoOps (Inr None))) \<lparr>allDetails = [], logged = [], page = 0\<rparr> [demoSummary ''a'']))
   \<and> map d_url (allDetails demoRun) = [''a'', ''b'']
   \<and> scraped (logged demoRun) = [''a'', ''bad'', ''b'']
   \<and> length (failures (logged demoRun)) = 1
   \<and> longDelays (logged demoRun) = 1"
proof -
  let ?ops = "demoOps (Inr None)"
  let ?st = "\<lparr>allDetails = [], logged = [], page = 0::nat\<rparr>"
  have bad: "scrapeDiscussionDetail ?ops q ''bad'' = (Inl GotoFailed, q)" for q
    by (simp add: scrapeDiscussionDetail_def demoOps_def)
  have h: "scrapeDiscussionDetail ?ops (page (foldl (openOne ?ops) ?st [demoSummary ''a'']))
       (s_url (demoSummary ''bad''))
     = (Inl GotoFailed, page (foldl (openOne ?ops) ?st [demoSummary ''a'']))"
    by (simp add: demoSummary_def bad)
  note t = failure_isolated [OF h, of "[demoSummary ''b'']" 0
      "[(''a'', demoSummary ''a''), (''bad'', demoSummary ''bad''), (''b'', demoSummary ''b'')]"]
  have d: "map d_url (allDetails demoRun) = [''a'', ''b'']" by code_simp
  from d have "length (allDetails demoRun) = 2" by (simp flip: length_map [of d_url])
  with t have f: "length (failures (logged demoRun)) = 1"
    by (simp add: demoRun_def)
  from t have s: "scraped (logged demoRun) = [''a'', ''bad'', ''b'']"
    by (simp add: demoRun_def demoSummary_def)
  from t f have l: "longDelays (logged demoRun) = 1"
    by (simp add: demoRun_def)
  from h d s f l show ?thesis by blast
qed

lemma collectOne_keys:
  "map fst (collectOne st s)
     = map fst st @ (if s_url s \<noteq> [] \<and> s_url s \<notin> set (map fst st) then [s_url s] else [])"
  by (auto simp: collectOne_def has_def map_of_eq_None_iff)

lemma collectOne_map_of:
  "map_of (collectOne st s) u
     = (case map_of st u of Some v \<Rightarrow> Some v
        | None \<Rightarrow> if u \<noteq> [] \<and> s_url s = u then Some s else None)"
  by (auto simp: collectOne_def has_def map_add_def split: option.splits)

lemma collect_keys_distinct:
  "distinct (map fst st) \<Longrightarrow> distinct (map fst (foldl collectOne st ss))"
  by (induction ss arbitrary: st) (simp_all add: collectOne_keys)

lemma collect_keys_set:
  "set (map fst (foldl collectOne st ss)) = set (map fst st) \<union> {u \<in> s_url ` set ss. u \<noteq> []}"
proof (induction ss arbitrary: st)
  case Nil
  show ?case by simp
next
  case (Cons s ss)
  show ?case by (simp only: foldl_Cons Cons.IH collectOne_keys) auto
qed

lemma collect_map_of:
  "map_of (foldl collectOne st ss) u
     = (case map_of st u of Some v \<Rightarrow> Some v
        | None \<Rightarrow> if u = [] then None else find (\<lambda>s. s_url s = u) ss)"
proof (induction ss arbitrary: st)
  case Nil
  show ?case by (simp split: option.splits)
next
  case (Cons s ss)
  show ?case by (simp add: Cons.IH collectOne_map_of split: option.splits)
qed

lemma collectAll_concat:
  "foldl collectFromCurrentPage st bs = foldl collectOne st (map summaryOf (concat bs))"
  by (induction bs arbitrary: st) (simp_all add: collectFromCurrentPage_def)

lemma collectOne_keyed:
  "\<forall>(k, v) \<in> set st. s_url v = k \<Longrightarrow> \<forall>(k, v) \<in> set (collectOne st s). s_url v = k"
  by (auto simp: collectOne_def)

lemma collect_values_keyed:
  "\<forall>(k, v) \<in> set st. s_url v = k \<Longrightarrow> \<forall>(k, v) \<in> set (foldl collectOne st ss). s_url v = k"
proof (induction ss arbitrary: st)
  case Nil
  then show ?case by simp
next
  case (Cons s ss)
  from Cons.prems have "\<forall>(k, v) \<in> set (collectOne st s). s_url v = k" by (rule collectOne_keyed)
  then have "\<forall>(k, v) \<in> set (foldl collectOne (collectOne st s) ss). s_url v = k" by (rule Cons.IH)
  then show ?case by simp
qed

lemma collectOne_new:
  "s_url s \<noteq> [] \<Longrightarrow> s_url s \<notin> set (map fst st) \<Longrightarrow> collectOne st s = st @ [(s_url s, s)]"
  by (simp add: collectOne_def has_def map_of_eq_None_iff)

lemma collectOne_old: "s_url s \<in> set (map fst st) \<Longrightarrow> collectOne st s = st"
  by (simp add: collectOne_def has_def map_of_eq_None_iff)

text \<open>
  C2. After any sequence of listing-page extractions the dedup store has one entry for
  each address that is not empty and was sighted, and no other entry; the entry of an
  address is the summary of its first sighting, stored under its own address; an
  extraction leaves the entry of every key that is already in the store as it is. A
  first page with the rows \<open>a\<close>, \<open>b\<close>, \<open>c\<close> and a next page with a row \<open>c'\<close> of the
  address of \<open>c\<close> and a row \<open>d\<close> give the four entries \<open>a\<close>, \<open>b\<close>, \<open>c\<close>, \<open>d\<close>, in that
  order, with the values of \<open>c\<close> from the first page.
\<close>

theorem first_sighting_wins:
  "distinct (map fst (collectAll sightings))
   \<and> set (map fst (collectAll sightings))
       = {u \<in> s_url ` summaryOf ` set (concat sightings). u \<noteq> []}
   \<and> (\<forall>u. u \<noteq> [] \<longrightarrow>
         map_of (collectAll sightings) u
           = find (\<lambda>s. s_url s = u) (map summaryOf (concat sightings)))
   \<and> (\<forall>(k, v) \<in> set (collectAll sightings). s_url v = k)
   \<and> (\<forall>u. has collected u \<longrightarrow>
         map_of (collectFromCurrentPage collected items) u = map_of collected u)
   \<and> (\<forall>a b c c' d.
         distinct [s_url (summaryOf a), s_url (summaryOf b), s_url (summaryOf c), s_url (summaryOf d)]
         \<and> [] \<notin> set [s_url (summaryOf a), s_url (summaryOf b), s_url (summaryOf c), s_url (summaryOf d)]
         \<and> s_url (summaryOf c') = s_url (summaryOf c)
         \<longrightarrow> collectAll [[a, b, c], [c', d]]
               = [(s_url (summaryOf a), summaryOf a), (s_url (summaryOf b), summaryOf b),
                  (s_url (summaryOf c), summaryOf c), (s_url (summaryOf d), summaryOf d)])"
proof (intro conjI allI impI)
  show "distinct (map fst (collectAll sightings))"
    by (simp add: collectAll_def collectAll_concat collect_keys_distinct)
  show "set (map fst (collectAll sightings))
       = {u \<in> s_url ` summaryOf ` set (concat sightings). u \<noteq> []}"
    unfolding collectAll_def collectAll_concat collect_keys_set by auto
  show "map_of (collectAll sightings) u
           = find (\<lambda>s. s_url s = u) (map summaryOf (concat sightings))" if "u \<noteq> []" for u
    using that by (simp add: collectAll_def collectAll_concat collect_map_of)
  show "\<forall>(k, v) \<in> set (collectAll sightings). s_url v = k"
    unfolding collectAll_def collectAll_concat by (rule collect_values_keyed) simp
  show "map_of (collectFromCurrentPage collected items) u = map_of collected u"
    if "has collected u" for u
    using that by (auto simp: collectFromCurrentPage_def collect_map_of has_def)
  show "collectAll [[a, b, c], [c', d]]
               = [(s_url (summaryOf a), summaryOf a), (s_url (summaryOf b), summaryOf b),
                  (s_url (summaryOf c), summaryOf c), (s_url (summaryOf d), summaryOf d)]"
    if "distinct [s_url (summaryOf a), s_url (summaryOf b), s_url (summaryOf c), s_url (summaryOf d)]
         \<and> [] \<notin> set [s_url (summaryOf a), s_url (summaryOf b), s_url (summaryOf c), s_url (summaryOf d)]
         \<and> s_url (summaryOf c') = s_url (summaryOf c)" for a b c c' d
  proof -
    let ?a = "summaryOf a" and ?b = "summaryOf b" and ?c = "summaryOf c" and ?d = "summaryOf d"
    from that have n: "s_url ?a \<noteq> []" "s_url ?b \<noteq> []" "s_url ?c \<noteq> []" "s_url ?d \<noteq> []"
      and ab: "s_url ?b \<noteq> s_url ?a" and ac: "s_url ?c \<noteq> s_url ?a" and bc: "s_url ?c \<noteq> s_url ?b"
      and ad: "s_url ?d \<noteq> s_url ?a" and bd: "s_url ?d \<noteq> s_url ?b" and cd: "s_url ?d \<noteq> s_url ?c"
      and c': "s_url (summaryOf c') = s_url ?c"
      by auto
    have 1: "collectOne [] ?a = [(s_url ?a, ?a)]" using n by (simp add: collectOne_new)
    have 2: "collectOne [(s_url ?a, ?a)] ?b = [(s_url ?a, ?a), (s_url ?b, ?b)]"
      using n ab by (simp add: collectOne_new)
    have 3: "collectOne [(s_url ?a, ?a), (s_url ?b, ?b)] ?c
               = [(s_url ?a, ?a), (s_url ?b, ?b), (s_url ?c, ?c)]"
      using n ac bc by (simp add: collectOne_new)
    have 4: "collectOne [(s_url ?a, ?a), (s_url ?b, ?b), (s_url ?c, ?c)] (summaryOf c')
               = [(s_url ?a, ?a), (s_url ?b, ?b), (s_url ?c, ?c)]"
      using c' by (simp add: collectOne_old)
    have 5: "collectOne [(s_url ?a, ?a), (s_url ?b, ?b), (s_url ?c, ?c)] ?d
               = [(s_url ?a, ?a), (s_url ?b, ?b), (s_url ?c, ?c), (s_url ?d, ?d)]"
      using n ad bd cd by (simp add: collectOne_new)
    show ?thesis
      by (simp add: collectAll_def collectFromCurrentPage_def 1 2 3 4 5)
  qed
qed


theorem first_sighting_wins_witness:
  "distinct [s_url (summaryOf (demoRow ''A'' ''/a'' ''1'')), s_url (summaryOf (demoRow ''B'' ''/b'' ''2'')),
             s_url (summaryOf (demoRow ''C'' ''/c'' ''3'')), s_url (summaryOf (demoRow ''D'' ''/d'' ''4''))]
   \<and> [] \<notin> set [s_url (summaryOf (demoRow ''A'' ''/a'' ''1'')), s_url (summaryOf (demoRow ''B'' ''/b'' ''2'')),
             s_url (summaryOf (demoRow ''C'' ''/c'' ''3'')), s_url (summaryOf (demoRow ''D'' ''/d'' ''4''))]
   \<and> s_url (summaryOf (demoRow ''C again'' ''/c'' ''99'')) = s_url (summaryOf (demoRow ''C'' ''/c'' ''3''))
   \<and> collectAll [[demoRow ''A'' ''/a'' ''1'', demoRow ''B'' ''/b'' ''2'', demoRow ''C'' ''/c'' ''3''],
                  [demoRow ''C again'' ''/c'' ''99'', demoRow ''D'' ''/d'' ''4'']]
       = [(''/a'', summaryOf (demoRow ''A'' ''/a'' ''1'')), (''/b'', summaryOf (demoRow ''B'' ''/b'' ''2'')),
          (''/c'', summaryOf (demoRow ''C'' ''/c'' ''3'')), (''/d'', summaryOf (demoRow ''D'' ''/d'' ''4''))]
   \<and> s_views (summaryOf (demoRow ''C'' ''/c'' ''3'')) = 3
   \<and> has [(''/c'', summaryOf (demoRow ''C'' ''/c'' ''3''))] ''/c''
   \<and> map_of (collectFromCurrentPage [(''/c'', summaryOf (demoRow ''C'' ''/c'' ''3''))]
                [demoRow ''C again'' ''/c'' ''99'']) ''/c''
       = Some (summaryOf (demoRow ''C'' ''/c'' ''3''))"
proof -
  have u: "s_url (summaryOf (demoRow t h v)) = h" for t h v
    by (simp add: summaryOf_def demoRow_def)
  have h1: "distinct [s_url (summaryOf (demoRow ''A'' ''/a'' ''1'')), s_url (summaryOf (demoRow ''B'' ''/b'' ''2'')),
             s_url (summaryOf (demoRow ''C'' ''/c'' ''3'')), s_url (summaryOf (demoRow ''D'' ''/d'' ''4''))]"
    by (simp add: u)
  have h2: "[] \<notin> set [s_url (summaryOf (demoRow ''A'' ''/a'' ''1'')), s_url (summaryOf (demoRow ''B'' ''/b'' ''2'')),
             s_url (summaryOf (demoRow ''C'' ''/c'' ''3'')), s_url (summaryOf (demoRow ''D'' ''/d'' ''4''))]"
    by (simp add: u)
  have h3: "s_url (summaryOf (demoRow ''C again'' ''/c'' ''99'')) = s_url (summaryOf (demoRow ''C'' ''/c'' ''3''))"
    by (simp add: u)
  have v: "s_views (summaryOf (demoRow ''C'' ''/c'' ''3'')) = 3" by code_simp
  have h4: "has [(''/c'', summaryOf (demoRow ''C'' ''/c'' ''3''))] ''/c''"
    by (simp add: has_def)
  note t = first_sighting_wins [of "[]" "[(''/c'', summaryOf (demoRow ''C'' ''/c'' ''3''))]"
      "[demoRow ''C again'' ''/c'' ''99'']"]
  from t h1 h2 h3
  have c: "collectAll [[demoRow ''A'' ''/a'' ''1'', demoRow ''B'' ''/b'' ''2'', demoRow ''C'' ''/c'' ''3''],
                  [demoRow ''C again'' ''/c'' ''99'', demoRow ''D'' ''/d'' ''4'']]
       = [(s_url (summaryOf (demoRow ''A'' ''/a'' ''1'')), summaryOf (demoRow ''A'' ''/a'' ''1'')),
          (s_url (summaryOf (demoRow ''B'' ''/b'' ''2'')), summaryOf (demoRow ''B'' ''/b'' ''2'')),
          (s_url (summaryOf (demoRow ''C'' ''/c'' ''3'')), summaryOf (demoRow ''C'' ''/c'' ''3'')),
          (s_url (summaryOf (demoRow ''D'' ''/d'' ''4'')), summaryOf (demoRow ''D'' ''/d'' ''4''))]"
    by blast
  from t h4
  have "map_of (collectFromCurrentPage [(''/c'', summaryOf (demoRow ''C'' ''/c'' ''3''))]
                [demoRow ''C again'' ''/c'' ''99'']) ''/c''
       = map_of [(''/c'', summaryOf (demoRow ''C'' ''/c'' ''3''))] ''/c''"
    by blast
  then have m: "map_of (collectFromCurrentPage [(''/c'', summaryOf (demoRow ''C'' ''/c'' ''3''))]
                [demoRow ''C again'' ''/c'' ''99'']) ''/c''
       = Some (summaryOf (demoRow ''C'' ''/c'' ''3''))"
    by simp
  from c have c': "collectAll [[demoRow ''A'' ''/a'' ''1'', demoRow ''B'' ''/b'' ''2'', demoRow ''C'' ''/c'' ''3''],
                  [demoRow ''C again'' ''/c'' ''99'', demoRow ''D'' ''/d'' ''4'']]
       = [(''/a'', summaryOf (demoRow ''A'' ''/a'' ''1'')), (''/b'', summaryOf (demoRow ''B'' ''/b'' ''2'')),
          (''/c'', summaryOf (demoRow ''C'' ''/c'' ''3'')), (''/d'', summaryOf (demoRow ''D'' ''/d'' ''4''))]"
    by (simp only: u)
  from h1 h2 h3 c' v h4 m show ?thesis by blast
qed

lemma clickNth_visible:
  "isVisible ops sel i q \<Longrightarrow> clickNth ops sel (q, n) i = (click ops sel i q, Suc n)"
  by (simp add: clickNth_def)

lemma clickNth_hidden: "\<not> isVisible ops sel i q \<Longrightarrow> clickNth ops sel (q, n) i = (q, n)"
  by (simp add: clickNth_def)

lemma clicks_none:
  "\<forall>i \<in> set is. \<not> isVisible ops sel i q \<Longrightarrow> foldl (clickNth ops sel) (q, n) is = (q, n)"
  by (induction "is") (simp_all add: clickNth_hidden)

lemma clicks_count:
  "foldl (clickNth ops sel) (q, n) is = (q', n') \<Longrightarrow>
     n \<le> n' \<and> (n' = n \<longrightarrow> q' = q \<and> (\<forall>i \<in> set is. \<not> isVisible ops sel i q))"
proof (induction "is" arbitrary: q n)
  case Nil
  then show ?case by simp
next
  case (Cons i "is")
  show ?case
  proof (cases "isVisible ops sel i q")
    case True
    with Cons.prems have "foldl (clickNth ops sel) (click ops sel i q, Suc n) is = (q', n')"
      by (simp add: clickNth_visible)
    from Cons.IH [OF this] show ?thesis by auto
  next
    case False
    with Cons.prems have "foldl (clickNth ops sel) (q, n) is = (q', n')"
      by (simp add: clickNth_hidden)
    from Cons.IH [OF this] False show ?thesis by auto
  qed
qed

lemma selectors_none:
  "list_all (selQuiet ops q) sels \<Longrightarrow> clickSelectors ops sels (q, n) = (None, (q, n))"
proof (induction sels)
  case Nil
  show ?case by simp
next
  case (Cons sel sels)
  then obtain c where c: "locCount ops sel q = Inr c"
    and v: "\<forall>i \<in> set [0..<c]. \<not> isVisible ops sel i q"
    by (auto simp: selQuiet_def list_all_iff split: sum.splits)
  from clicks_none [OF v] c have "clickAll ops sel (q, n) = (None, (q, n))"
    by (simp add: clickAll_def)
  with Cons show ?case by simp
qed

lemma selectors_count:
  "clickSelectors ops sels (q, n) = (None, (q', n')) \<Longrightarrow>
     n \<le> n' \<and> (n' = n \<longrightarrow> q' = q \<and> list_all (selQuiet ops q) sels)"
proof (induction sels arbitrary: q n)
  case Nil
  then show ?case by simp
next
  case (Cons sel sels)
  from Cons.prems obtain c where c: "locCount ops sel q = Inr c"
    by (cases "locCount ops sel q") (simp_all add: clickAll_def)
  obtain q1 n1 where f: "foldl (clickNth ops sel) (q, n) [0..<c] = (q1, n1)"
    by (cases "foldl (clickNth ops sel) (q, n) [0..<c]")
  with c Cons.prems have r: "clickSelectors ops sels (q1, n1) = (None, (q', n'))"
    by (simp add: clickAll_def)
  from clicks_count [OF f] have 1: "n \<le> n1"
    and 2: "n1 = n \<longrightarrow> q1 = q \<and> (\<forall>i \<in> set [0..<c]. \<not> isVisible ops sel i q)"
    by blast+
  from Cons.IH [OF r] have 3: "n1 \<le> n'" and 4: "n' = n1 \<longrightarrow> q' = q1 \<and> list_all (selQuiet ops q1) sels"
    by blast+
  from 1 3 have "n \<le> n'" by simp
  moreover have "q' = q \<and> list_all (selQuiet ops q) (sel # sels)" if "n' = n"
  proof -
    from that 1 3 have "n1 = n" "n' = n1" by simp_all
    with 2 4 c show ?thesis by (simp add: selQuiet_def list_all_iff)
  qed
  ultimately show ?case by blast
qed

lemma round_quiet:
  "quiet ops q \<Longrightarrow> wheel ops q = (None, q1) \<Longrightarrow> oneRound ops q = (Inr 0, q1)"
  by (simp add: oneRound_def quiet_def selectors_none)

lemma round_zero:
  assumes "oneRound ops q = (Inr 0, q1)"
  shows "quiet ops q \<and> wheel ops q = (None, q1)"
proof -
  obtain e q' n where s: "clickSelectors ops selectors (q, 0) = (e, (q', n))"
    by (cases "clickSelectors ops selectors (q, 0)") auto
  with assms have e: "e = None" by (cases e) (simp_all add: oneRound_def)
  with s assms have w: "wheel ops q' = (None, q1)" and n: "n = 0"
    by (auto simp: oneRound_def split: prod.splits option.splits)
  from selectors_count [of ops selectors q 0 q' n] s e n
  have "q' = q" "list_all (selQuiet ops q) selectors" by simp_all
  with w show ?thesis by (simp add: quiet_def)
qed

lemma loop_shape:
  "expandLoop ops k acc p = (Inr cs, p') \<Longrightarrow>
     \<exists>rs. cs = acc @ rs \<and> length rs \<le> k \<and> (0 < k \<longrightarrow> rs \<noteq> [])
       \<and> (\<forall>c \<in> set (butlast rs). 0 < c)
       \<and> (rs \<noteq> [] \<longrightarrow> last rs = 0 \<or> length rs = k)
       \<and> (rs \<noteq> [] \<and> last rs = 0 \<longrightarrow> (\<exists>q. oneRound ops q = (Inr 0, p')))"
proof (induction k arbitrary: acc p)
  case 0
  then show ?case by simp
next
  case (Suc k)
  obtain r p1 where o: "oneRound ops p = (r, p1)" by (cases "oneRound ops p")
  with Suc.prems obtain n where r: "r = Inr n" by (cases r) simp_all
  show ?case
  proof (cases "n = 0")
    case True
    with o r Suc.prems have "cs = acc @ [0]" "p' = p1" by simp_all
    with o r True show ?thesis by (intro exI [of _ "[0]"]) auto
  next
    case False
    with o r Suc.prems have "expandLoop ops k (acc @ [n]) p1 = (Inr cs, p')" by simp
    from Suc.IH [OF this] obtain rs where rs: "cs = (acc @ [n]) @ rs" "length rs \<le> k"
      "0 < k \<longrightarrow> rs \<noteq> []" "\<forall>c \<in> set (butlast rs). 0 < c"
      "rs \<noteq> [] \<longrightarrow> last rs = 0 \<or> length rs = k"
      "rs \<noteq> [] \<and> last rs = 0 \<longrightarrow> (\<exists>q. oneRound ops q = (Inr 0, p'))"
      by blast
    show ?thesis
    proof (intro exI [of _ "n # rs"] conjI impI)
      from rs(1) show "cs = acc @ n # rs" by simp
      from rs(2) show "length (n # rs) \<le> Suc k" by simp
      show "n # rs \<noteq> []" by simp
      from rs(4) False show "\<forall>c \<in> set (butlast (n # rs)). 0 < c" by auto
      from rs(3,5) False show "last (n # rs) = 0 \<or> length (n # rs) = Suc k"
        by (cases "rs = []") auto
      assume "n # rs \<noteq> [] \<and> last (n # rs) = 0"
      with False rs(6) show "\<exists>q. oneRound ops q = (Inr 0, p')"
        by (cases "rs = []") auto
    qed
  qed
qed

lemma loop_busy:
  assumes "\<forall>q. \<exists>n q'. oneRound ops q = (Inr (Suc n), q')"
  shows "\<exists>rs p'. expandLoop ops k acc p = (Inr (acc @ rs), p') \<and> length rs = k
           \<and> (0 < k \<longrightarrow> 0 < last rs)"
proof (induction k arbitrary: acc p)
  case 0
  show ?case by simp
next
  case (Suc k)
  from assms obtain n p1 where o: "oneRound ops p = (Inr (Suc n), p1)" by blast
  from Suc.IH [of "acc @ [Suc n]" p1] obtain rs p'
    where rs: "expandLoop ops k (acc @ [Suc n]) p1 = (Inr ((acc @ [Suc n]) @ rs), p')"
      "length rs = k" "0 < k \<longrightarrow> 0 < last rs"
    by blast
  show ?case
  proof (intro exI [of _ "Suc n # rs"] exI [of _ p'] conjI impI)
    from o rs(1) show "expandLoop ops (Suc k) acc p = (Inr (acc @ Suc n # rs), p')" by simp
    from rs(2) show "length (Suc n # rs) = Suc k" by simp
    from rs(2,3) show "0 < last (Suc n # rs)" by (cases "rs = []") auto
  qed
qed

text \<open>
  C3. Run on a page where nothing is left to reveal, the Content Revealer activates
  nothing and returns after one round and one scroll step. Whenever it returns, at most
  50 rounds were run, every round but the last activated something, and the last round
  activated nothing unless it was the 50th: a round that activates nothing ends the loop.
  Run again after a run that ended with such a round, on a page that the scroll step
  leaves as it is, it activates nothing and returns after one round. When every round
  activates something, it returns normally after 50 rounds.
\<close>

theorem expand_converges:
  "(quiet ops p \<and> wheel ops p = (None, p1) \<longrightarrow> expandAllContent ops p = (Inr [0], p1))
   \<and> (expandAllContent ops p = (Inr cs, p') \<longrightarrow>
        cs \<noteq> [] \<and> length cs \<le> 50 \<and> (\<forall>c \<in> set (butlast cs). 0 < c)
        \<and> (last cs = 0 \<or> length cs = 50))
   \<and> (expandAllContent ops p = (Inr cs, p') \<and> last cs = 0 \<and> static ops
        \<and> wheel ops p' = (None, p'') \<longrightarrow> expandAllContent ops p' = (Inr [0], p''))
   \<and> ((\<forall>q. \<exists>n q'. oneRound ops q = (Inr (Suc n), q')) \<longrightarrow>
        (\<exists>rs q. expandAllContent ops p = (Inr rs, q) \<and> length rs = 50 \<and> 0 < last rs))"
proof -
  have 1: "expandAllContent ops p = (Inr [0], p1)" if "quiet ops p \<and> wheel ops p = (None, p1)"
  proof -
    from that have "oneRound ops p = (Inr 0, p1)" by (simp add: round_quiet)
    then show ?thesis by (simp add: expandAllContent_def numeral_eq_Suc)
  qed
  have 2: "cs \<noteq> [] \<and> length cs \<le> 50 \<and> (\<forall>c \<in> set (butlast cs). 0 < c)
        \<and> (last cs = 0 \<or> length cs = 50)"
    if "expandAllContent ops p = (Inr cs, p')"
  proof -
    from that have "expandLoop ops 50 [] p = (Inr cs, p')" by (simp add: expandAllContent_def)
    from loop_shape [OF this] show ?thesis by auto
  qed
  have 3: "expandAllContent ops p' = (Inr [0], p'')"
    if a: "expandAllContent ops p = (Inr cs, p') \<and> last cs = 0 \<and> static ops
        \<and> wheel ops p' = (None, p'')"
  proof -
    from a have "expandLoop ops 50 [] p = (Inr cs, p')" by (simp add: expandAllContent_def)
    from loop_shape [OF this] a obtain q where "oneRound ops q = (Inr 0, p')" by auto
    then have q: "quiet ops q" "wheel ops q = (None, p')" by (simp_all add: round_zero)
    from a have "static ops" by simp
    then have "locCount ops sel (snd (wheel ops q)) = locCount ops sel q
        \<and> isVisible ops sel i (snd (wheel ops q)) = isVisible ops sel i q" for sel i
      unfolding static_def by blast
    with q(2) have l: "locCount ops sel p' = locCount ops sel q"
      and v: "isVisible ops sel i p' = isVisible ops sel i q" for sel i
      by simp_all
    have "selQuiet ops p' sel = selQuiet ops q sel" for sel
      unfolding selQuiet_def l v ..
    then have "selQuiet ops p' = selQuiet ops q" by (rule ext)
    with q(1) have "quiet ops p'" by (simp add: quiet_def)
    with a have "oneRound ops p' = (Inr 0, p'')" by (simp add: round_quiet)
    then show ?thesis by (simp add: expandAllContent_def numeral_eq_Suc)
  qed
  have 4: "\<exists>rs q. expandAllContent ops p = (Inr rs, q) \<and> length rs = 50 \<and> 0 < last rs"
    if "\<forall>q. \<exists>n q'. oneRound ops q = (Inr (Suc n), q')"
    using loop_busy [OF that, of 50 "[]" p] by (auto simp: expandAllContent_def)
  from 1 2 3 4 show ?thesis by blast
qed


theorem expand_converges_witness:
  "quiet (demoOps (Inr None)) 1 \<and> wheel (demoOps (Inr None)) 1 = (None, 1)
   \<and> expandAllContent (demoOps (Inr None)) 1 = (Inr [0], 1)
   \<and> expandAllContent (demoOps (Inr None)) 0 = (Inr [1, 0], 1)
   \<and> last [1, 0 :: nat] = 0 \<and> static (demoOps (Inr None))
   \<and> (\<forall>q. \<exists>n q'. oneRound stuckOps q = (Inr (Suc n), q'))
   \<and> (\<exists>rs q. expandAllContent stuckOps 0 = (Inr rs, q) \<and> length rs = 50 \<and> 0 < last rs)"
proof -
  let ?ops = "demoOps (Inr None)"
  have q: "quiet ?ops 1" by code_simp
  have w: "wheel ?ops 1 = (None, 1)" by (simp add: demoOps_def)
  have e: "expandAllContent ?ops 0 = (Inr [1, 0], 1)" by code_simp
  have l: "last [1, 0 :: nat] = 0" by simp
  have s: "static ?ops" by (simp add: static_def demoOps_def)
  have "oneRound stuckOps q = (Inr (Suc 0), Suc q)" for q
    by (simp add: oneRound_def selectors_def clickAll_def clickNth_def stuckOps_def)
  then have b: "\<forall>q. \<exists>n q'. oneRound stuckOps q = (Inr (Suc n), q')" by blast
  from expand_converges [of ?ops 1 1] q w
  have 1: "expandAllContent ?ops 1 = (Inr [0], 1)" by blast
  from expand_converges [of ?ops 0 _ "[1, 0]" 1 1] e l s w
  have 2: "expandAllContent ?ops 1 = (Inr [0], 1)" by blast
  from expand_converges [of stuckOps 0] b
  have 3: "\<exists>rs q. expandAllContent stuckOps 0 = (Inr rs, q) \<and> length rs = 50 \<and> 0 < last rs"
    by blast
  from q w 1 2 e l s b 3 show ?thesis by blast
qed

section \<open>Author inference\<close>

lemma rep_greedy:
  "\<forall>x \<in> set xs. inCls k x \<Longrightarrow> stops k ys \<Longrightarrow> lo \<le> length xs \<Longrightarrow>
     \<exists>zs. rep k lo None (pre, xs @ ys) = (lastc pre xs, ys) # zs"
proof (induction xs arbitrary: pre lo)
  case Nil
  then show ?case by (cases ys) (simp_all add: lastc_def stops_def)
next
  case (Cons x xs)
  from Cons.prems have "lo - 1 \<le> length xs" by simp
  from Cons.IH [OF _ Cons.prems(2) this, of "Some x"] Cons.prems(1)
  obtain zs where "rep k (lo - 1) None (Some x, xs @ ys) = (lastc (Some x) xs, ys) # zs"
    by auto
  moreover have "lastc (Some x) xs = lastc pre (x # xs)" by (simp add: lastc_def)
  ultimately show ?case using Cons.prems(1) by simp
qed

lemma rep_zero: "rep k 0 (Some 0) (pre, xs) = [(pre, xs)]"
  by (cases xs) simp_all

lemma segs_head:
  "rxm r p = q # qs \<Longrightarrow> segs rs q = b # bs \<Longrightarrow> \<exists>zs. segs (r # rs) p = (q # b) # zs"
  by simp

lemma isSep_eq: "isSep = inCls (Union Space (Chars '',:-''))"
  by (rule ext) (simp only: isSep_def)

lemma sep_not_word: "isSep c \<Longrightarrow> \<not> isWordChar c"
  by (auto simp: isSep_def isSpace_def isWordChar_def isAlpha_def isUpper_def isLowerC_def
      isDigit_def upper_def lower_def digits_def)

lemma takeWhile_dropWhile_stops: "stops k (dropWhile (inCls k) xs)"
  by (induction xs) (simp_all add: stops_def)

lemma sep_not_tok: "isSep c \<Longrightarrow> c \<noteq> CHR ''-'' \<Longrightarrow> \<not> isTok c"
  using sep_not_word [of c] by (auto simp: isTok_def)

lemma author_segs:
  assumes c: "isAlpha c" and cs: "\<forall>x \<in> set cs. isTok x" and len: "2 \<le> length cs"
    and w: "isWordChar (last cs)"
    and s: "isSep s" "s \<noteq> CHR ''-''"
    and rest: "\<forall>x \<in> set (dropWhile isSep ss). \<not> isLineTerminator x"
  shows "\<exists>p2 p3 p4 zs. segs rx_authorSegs (None, (c # cs) @ s # ss)
           = [(None, (c # cs) @ s # ss), (Some (last cs), s # ss), p2, p3, p4] # zs
           \<and> between p2 p3 = dropWhile isSep ss"
proof -
  let ?tok = "Union Word (Chars ''-'')" and ?sep = "Union Space (Chars '',:-'')"
  let ?seps = "s # takeWhile isSep ss" and ?rest = "dropWhile isSep ss"
  let ?p1 = "(Some (last cs), s # ss)"
  let ?p2 = "(Some (last ?seps), ?rest)"
  let ?p3 = "(lastc (Some (last ?seps)) ?rest, [] :: string)"
  from len have cs_ne: "cs \<noteq> []" by auto
  \<comment> \<open>the rest of the message, up to the end of the text\<close>
  have "stops Dot []" by (simp add: stops_def)
  from rep_greedy [of ?rest Dot "[]" 0 "Some (last ?seps)", OF _ this] rest
  obtain z3 where "rxm (Rep Dot 0 None) ?p2 = ?p3 # z3" by auto
  moreover have "segs [Eol] ?p3 = [[?p3]]" by simp
  ultimately obtain z4 where 4: "segs [Rep Dot 0 None, Eol] ?p2 = [?p3, ?p3] # z4"
    using segs_head by blast
  \<comment> \<open>the separators\<close>
  have "stops ?sep (dropWhile (inCls ?sep) ss)" by (rule takeWhile_dropWhile_stops)
  then have "stops ?sep ?rest" by (simp only: isSep_eq)
  moreover have "\<forall>x \<in> set (takeWhile isSep ss). isSep x" by (auto dest: set_takeWhileD)
  with s(1) have "\<forall>x \<in> set ?seps. inCls ?sep x" by (simp add: isSep_def)
  ultimately obtain z2 where "rep ?sep 1 None ?p1 = (lastc (Some (last cs)) ?seps, ?rest) # z2"
    using rep_greedy [of ?seps ?sep ?rest 1 "Some (last cs)"] s(1) by auto
  moreover have "rxm Wb ?p1 = [?p1]"
    using w sep_not_word [OF s(1)] by (simp add: wordBefore_def wordAfter_def)
  ultimately have "rxm (Seq Wb (Rep ?sep 1 None)) ?p1 = ?p2 # z2"
    by (simp add: lastc_def)
  with 4 obtain z5 where 3: "segs [Seq Wb (Rep ?sep 1 None), Rep Dot 0 None, Eol] ?p1
      = [?p2, ?p3, ?p3] # z5"
    using segs_head by blast
  \<comment> \<open>the token\<close>
  have "stops ?tok (s # ss)"
    using sep_not_tok [OF s] by (simp add: stops_def isTok_def)
  then obtain z1 where "rep ?tok 2 None (Some c, cs @ s # ss) = (lastc (Some c) cs, s # ss) # z1"
    using rep_greedy [of cs ?tok "s # ss" 2 "Some c"] cs len by (auto simp: isTok_def)
  with c cs_ne have "rxm (Seq (Rep Alpha 1 (Some 1)) (Rep ?tok 2 None)) (None, (c # cs) @ s # ss)
      = ?p1 # z1"
    by (simp add: lastc_def rep_zero)
  with 3 obtain z6 where 2: "segs [Seq (Rep Alpha 1 (Some 1)) (Rep ?tok 2 None),
        Seq Wb (Rep ?sep 1 None), Rep Dot 0 None, Eol] (None, (c # cs) @ s # ss)
      = [?p1, ?p2, ?p3, ?p3] # z6"
    using segs_head by blast
  have "rxm Bol (None, (c # cs) @ s # ss) = [(None, (c # cs) @ s # ss)]" by simp
  with 2 obtain z7 where "segs rx_authorSegs (None, (c # cs) @ s # ss)
      = [(None, (c # cs) @ s # ss), ?p1, ?p2, ?p3, ?p3] # z7"
    unfolding rx_authorSegs_def using segs_head by blast
  moreover have "between ?p2 ?p3 = ?rest" by (simp add: between_def)
  ultimately show ?thesis by blast
qed

lemma author_general:
  assumes "isAlpha c" "\<forall>x \<in> set cs. isTok x" "2 \<le> length cs" "isWordChar (last cs)"
    "isSep s" "s \<noteq> CHR ''-''" "\<forall>x \<in> set (dropWhile isSep ss). \<not> isLineTerminator x"
  shows "extractAuthorFromContent ((c # cs) @ s # ss)
           = (if c # cs \<in> set blacklist then (None, (c # cs) @ s # ss)
              else (Some (c # cs), trim (dropWhile isSep ss)))"
proof -
  from author_segs [OF assms] obtain p2 p3 p4 zs
    where g: "segs rx_authorSegs (None, (c # cs) @ s # ss)
           = [(None, (c # cs) @ s # ss), (Some (last cs), s # ss), p2, p3, p4] # zs"
      and b: "between p2 p3 = dropWhile isSep ss"
    by blast
  have "between (None, (c # cs) @ s # ss) (Some (last cs), s # ss) = c # cs"
    by (simp add: between_def)
  with g b show ?thesis
    by (simp add: extractAuthorFromContent_def Let_def)
qed




text \<open>
  C10. The blacklist is compared with the token as it is written: \<open>hello everyone\<close>
  and \<open>thanks for the help\<close> give the authors \<open>hello\<close> and \<open>thanks\<close>, which are
  stripped from the content, while \<open>Hello everyone\<close> and \<open>Thanks for the help\<close> give no
  author. In general, for a blacklisted word of three or more characters followed by
  white space, a comma or a colon, the word in lower case is taken as the author and
  the word as it is in the blacklist is not.
\<close>

lemma opener:
  assumes "tokenShape b" "tokenShape (toLowerCase b)"
    and "isSep s" "s \<noteq> CHR ''-''" "\<forall>x \<in> set (dropWhile isSep ss). \<not> isLineTerminator x"
    and "b \<in> set blacklist" "toLowerCase b \<notin> set blacklist"
  shows "extractAuthorFromContent (toLowerCase b @ s # ss)
            = (Some (toLowerCase b), trim (dropWhile isSep ss))
          \<and> extractAuthorFromContent (b @ s # ss) = (None, b @ s # ss)"
proof -
  from assms(1) obtain c cs where b: "b = c # cs" "isAlpha c" "\<forall>x \<in> set cs. isTok x"
    "2 \<le> length cs" "isWordChar (last cs)"
    by (cases b) (auto simp: tokenShape_def list_all_iff)
  from assms(2) obtain d ds where l: "toLowerCase b = d # ds" "isAlpha d" "\<forall>x \<in> set ds. isTok x"
    "2 \<le> length ds" "isWordChar (last ds)"
    by (cases "toLowerCase b") (auto simp: tokenShape_def list_all_iff)
  from author_general [OF l(2-5) assms(3-5)] assms(7)
  have "extractAuthorFromContent (toLowerCase b @ s # ss)
            = (Some (toLowerCase b), trim (dropWhile isSep ss))"
    unfolding l(1) [symmetric] by simp
  moreover from author_general [OF b(2-5) assms(3-5)] assms(6)
  have "extractAuthorFromContent (b @ s # ss) = (None, b @ s # ss)"
    unfolding b(1) [symmetric] by simp
  ultimately show ?thesis by simp
qed

text \<open>
  C10. The blacklist is compared with the token as it is written: \<open>hello everyone\<close>
  and \<open>thanks for the help\<close> give the authors \<open>hello\<close> and \<open>thanks\<close>, which are
  stripped from the content, while \<open>Hello everyone\<close> and \<open>Thanks for the help\<close> give no
  author. In general, for a blacklisted word of three or more characters followed by
  white space, a comma or a colon, the word in lower case is taken as the author and
  the word as it is in the blacklist is not.
\<close>

theorem blacklist_case_sensitive:
  "extractAuthorFromContent ''hello everyone'' = (Some ''hello'', ''everyone'')
   \<and> extractAuthorFromContent ''Hello everyone'' = (None, ''Hello everyone'')
   \<and> extractAuthorFromContent ''thanks for the help'' = (Some ''thanks'', ''for the help'')
   \<and> extractAuthorFromContent ''Thanks for the help'' = (None, ''Thanks for the help'')
   \<and> (b \<in> set (filter (\<lambda>w. 3 \<le> length w) blacklist) \<and> isSep s \<and> s \<noteq> CHR ''-''
        \<and> (\<forall>x \<in> set (dropWhile isSep ss). \<not> isLineTerminator x)
      \<longrightarrow> extractAuthorFromContent (toLowerCase b @ s # ss)
            = (Some (toLowerCase b), trim (dropWhile isSep ss))
          \<and> extractAuthorFromContent (b @ s # ss) = (None, b @ s # ss))"
proof -
  have 1: "extractAuthorFromContent ''hello everyone'' = (Some ''hello'', ''everyone'')"
    by code_simp
  have 2: "extractAuthorFromContent ''Hello everyone'' = (None, ''Hello everyone'')"
    by code_simp
  have 3: "extractAuthorFromContent ''thanks for the help'' = (Some ''thanks'', ''for the help'')"
    by code_simp
  have 4: "extractAuthorFromContent ''Thanks for the help'' = (None, ''Thanks for the help'')"
    by code_simp
  have 5: "extractAuthorFromContent (toLowerCase b @ s # ss)
            = (Some (toLowerCase b), trim (dropWhile isSep ss))
          \<and> extractAuthorFromContent (b @ s # ss) = (None, b @ s # ss)"
    if h: "b \<in> set (filter (\<lambda>w. 3 \<le> length w) blacklist) \<and> isSep s \<and> s \<noteq> CHR ''-''
        \<and> (\<forall>x \<in> set (dropWhile isSep ss). \<not> isLineTerminator x)"
  proof -
    from h have s: "isSep s" "s \<noteq> CHR ''-''"
      "\<forall>x \<in> set (dropWhile isSep ss). \<not> isLineTerminator x"
      by blast+
    have "filter (\<lambda>w. 3 \<le> length w) blacklist = [''Has'', ''Thanks'', ''Hey'', ''Hello'']"
      by code_simp
    with h have "b \<in> set [''Has'', ''Thanks'', ''Hey'', ''Hello'']" by metis
    then consider "b = ''Has''" | "b = ''Thanks''" | "b = ''Hey''" | "b = ''Hello''"
      unfolding list.set by blast
    then show ?thesis
    proof cases
      case 1
      show ?thesis unfolding 1 by (rule opener [OF _ _ s]) code_simp+
    next
      case 2
      show ?thesis unfolding 2 by (rule opener [OF _ _ s]) code_simp+
    next
      case 3
      show ?thesis unfolding 3 by (rule opener [OF _ _ s]) code_simp+
    next
      case 4
      show ?thesis unfolding 4 by (rule opener [OF _ _ s]) code_simp+
    qed
  qed
  from 1 2 3 4 5 show ?thesis by blast
qed

theorem blacklist_case_sensitive_witness:
  "''Hey'' \<in> set (filter (\<lambda>w. 3 \<le> length w) blacklist) \<and> isSep CHR '' '' \<and> CHR '' '' \<noteq> CHR ''-''
   \<and> list_all (\<lambda>x. \<not> isLineTerminator x) (dropWhile isSep ''all'')
   \<and> extractAuthorFromContent ''hey all'' = (Some ''hey'', ''all'')
   \<and> extractAuthorFromContent ''Hey all'' = (None, ''Hey all'')"
proof -
  have a: "''Hey'' \<in> set (filter (\<lambda>w. 3 \<le> length w) blacklist)" "isSep CHR '' ''" "CHR '' '' \<noteq> CHR ''-''"
    "\<forall>x \<in> set (dropWhile isSep ''all''). \<not> isLineTerminator x"
    by code_simp+
  have l: "toLowerCase ''Hey'' = ''hey''" by code_simp
  have t: "trim (dropWhile isSep ''all'') = ''all''" by code_simp
  from blacklist_case_sensitive [of "''Hey''" "CHR '' ''" "''all''"] a
  have "extractAuthorFromContent (toLowerCase ''Hey'' @ CHR '' '' # ''all'')
            = (Some (toLowerCase ''Hey''), trim (dropWhile isSep ''all''))
          \<and> extractAuthorFromContent (''Hey'' @ CHR '' '' # ''all'') = (None, ''Hey'' @ CHR '' '' # ''all'')"
    by blast
  then have c: "extractAuthorFromContent ''hey all'' = (Some ''hey'', ''all'')
      \<and> extractAuthorFromContent ''Hey all'' = (None, ''Hey all'')"
    unfolding l t by simp
  from a(4) have d: "list_all (\<lambda>x. \<not> isLineTerminator x) (dropWhile isSep ''all'')"
    by (simp only: list_all_iff)
  from a(1-3) d c show ?thesis by blast
qed

section \<open>Text cleaning\<close>



subsection \<open>Lines\<close>




subsection \<open>Where nothing matches, nothing is replaced\<close>









subsection \<open>Texts that the inline passes leave alone\<close>























subsection \<open>A word of its own between two plain texts\<close>



























end
